theory Spec2Isabelle
  imports Main "HOL-Library.Sublist"
begin

section \<open>Strings\<close>

text \<open>
  A JavaScript string is modelled as a \<^typ>\<open>string\<close>: a list of code units, each an
  8-bit \<^typ>\<open>char\<close> read as the code point of the same number (U+0000 to U+00FF).
  The character classes below are the ones of ECMAScript restricted to that range:
  \<open>\d\<close> is \<open>[0-9]\<close>, \<open>\w\<close> is \<open>[A-Za-z0-9_]\<close>, and \<open>\s\<close> (also what
  \<open>trim\<close> strips) is TAB, LF, VT, FF, CR, SPACE and NBSP.
\<close>

definition is_digit :: "char \<Rightarrow> bool" where
  "is_digit c = (c \<in> set ''0123456789'')"

definition is_word :: "char \<Rightarrow> bool" where
  "is_word c =
     (c \<in> set ''abcdefghijklmnopqrstuvwxyzABCDEFGHIJKLMNOPQRSTUVWXYZ0123456789_'')"

definition is_space :: "char \<Rightarrow> bool" where
  "is_space c =
     (c \<in> set [CHR 0x09, CHR 0x0A, CHR 0x0B, CHR 0x0C, CHR 0x0D, CHR '' '', CHR 0xA0])"

text \<open>
  \<open>toUpperCase\<close>, one code unit at a time: the letters \<open>a\<close> to \<open>z\<close> go to \<open>A\<close> to
  \<open>Z\<close>. Every other code unit of the range is left as it is: those that JavaScript
  changes go to code units outside ASCII, which like the unchanged one are equal to no
  letter of a tag or an extension, or, for U+00DF, to the two letters \<open>SS\<close>, which
  occur in no tag.
\<close>

definition toUpperCase_char :: "char \<Rightarrow> char" where
  "toUpperCase_char c =
     (case map_of (zip ''abcdefghijklmnopqrstuvwxyz'' ''ABCDEFGHIJKLMNOPQRSTUVWXYZ'') c of
        Some u \<Rightarrow> u
      | None \<Rightarrow> c)"

definition toUpperCase :: "string \<Rightarrow> string" where
  "toUpperCase s = map toUpperCase_char s"

text \<open>\<open>s.includes(k)\<close>: \<open>k\<close> occurs in \<open>s\<close> as a contiguous run.\<close>

fun includes_str :: "string \<Rightarrow> string \<Rightarrow> bool" where
  "includes_str [] k = (k = [])"
| "includes_str (c # cs) k = (prefix k (c # cs) \<or> includes_str cs k)"

text \<open>\<open>s.trim()\<close>.\<close>

definition trim :: "string \<Rightarrow> string" where
  "trim s = rev (dropWhile is_space (rev (dropWhile is_space s)))"

text \<open>\<open>xs.join(",")\<close>.\<close>

fun join_comma :: "string list \<Rightarrow> string" where
  "join_comma [] = []"
| "join_comma [x] = x"
| "join_comma (x # y # ys) = x @ '','' @ join_comma (y # ys)"

section \<open>The regular expressions of the sanitizer\<close>

text \<open>
  \<open>\b\<close> holds between two positions when exactly one of the code units on its two
  sides is a word character; outside the string counts as not a word character. The
  first argument says whether the code unit before the position is a word character,
  the second is the rest of the string from the position on.
\<close>

definition boundary :: "bool \<Rightarrow> string \<Rightarrow> bool" where
  "boundary pw s = (pw \<noteq> (case s of [] \<Rightarrow> False | c # _ \<Rightarrow> is_word c))"

text \<open>
  \<open>s.match(re)\<close> without the \<open>g\<close> flag: the match at the leftmost position that has
  one, \<open>null\<close> (here \<open>None\<close>) when no position has. The matcher \<open>m\<close> gives the text
  matched at one position.
\<close>

fun first_match :: "(bool \<Rightarrow> string \<Rightarrow> string option) \<Rightarrow> bool \<Rightarrow> string \<Rightarrow> string option" where
  "first_match m pw [] = m pw []"
| "first_match m pw (c # cs) =
     (case m pw (c # cs) of
        Some r \<Rightarrow> Some r
      | None \<Rightarrow> first_match m (is_word c) cs)"

text \<open>\<open>/\b(20|19)\d{2}\b/\<close> at one position.\<close>

fun year_at :: "bool \<Rightarrow> string \<Rightarrow> string option" where
  "year_at pw (a # b # c # d # rest) =
     (if boundary pw (a # b # c # d # rest)
         \<and> ([a, b] = ''20'' \<or> [a, b] = ''19'')
         \<and> is_digit c \<and> is_digit d
         \<and> boundary (is_word d) rest
      then Some [a, b, c, d] else None)"
| "year_at pw _ = None"

text \<open>\<open>/\b(1080p|720p|2160p)\b/\<close> at one position: the alternatives in their order.\<close>

definition literal_at :: "string \<Rightarrow> string \<Rightarrow> bool" where
  "literal_at lit s = (prefix lit s \<and> boundary (is_word (last lit)) (drop (length lit) s))"

definition quality_at :: "bool \<Rightarrow> string \<Rightarrow> string option" where
  "quality_at pw s =
     (if \<not> boundary pw s then None
      else if literal_at ''1080p'' s then Some ''1080p''
      else if literal_at ''720p'' s then Some ''720p''
      else if literal_at ''2160p'' s then Some ''2160p''
      else None)"

text \<open>
  \<open>/\.(mkv|mp4|mov|avi|wmv|flv|webm)$/i\<close> at one position: the rest of the string is
  a dot and one of the extensions, letters compared without case. \<open>replace\<close> with the
  empty string removes the leftmost match, which runs to the end of the string.
\<close>

definition extensions :: "string list" where
  "extensions = [''mkv'', ''mp4'', ''mov'', ''avi'', ''wmv'', ''flv'', ''webm'']"

fun eq_ignore_case :: "string \<Rightarrow> string \<Rightarrow> bool" where
  "eq_ignore_case [] [] = True"
| "eq_ignore_case (a # as) (b # bs) =
     (if toUpperCase_char a = toUpperCase_char b then eq_ignore_case as bs else False)"
| "eq_ignore_case _ _ = False"

fun extension_at :: "string \<Rightarrow> bool" where
  "extension_at [] = False"
| "extension_at (c # cs) =
     (if c = CHR ''.'' then list_ex (\<lambda>e. eq_ignore_case e cs) extensions else False)"

fun strip_extension :: "string \<Rightarrow> string" where
  "strip_extension [] = []"
| "strip_extension (c # cs) = (if extension_at (c # cs) then [] else c # strip_extension cs)"

text \<open>\<open>.replace(/\./g, " ")\<close> and \<open>.replace(/[\[\]\(\)\-\_\/]/g, " ")\<close>.\<close>

definition replace_dots :: "string \<Rightarrow> string" where
  "replace_dots s = map (\<lambda>c. if c = CHR ''.'' then CHR '' '' else c) s"

definition is_bracket :: "char \<Rightarrow> bool" where
  "is_bracket c = (c \<in> set ''[]()-_/'')"

definition replace_brackets :: "string \<Rightarrow> string" where
  "replace_brackets s = map (\<lambda>c. if is_bracket c then CHR '' '' else c) s"

text \<open>
  \<open>.replace(/\s+/g, " ")\<close>: every maximal run of white space becomes one space. The
  flag says whether the code unit before was white space (of a run already replaced).
\<close>

fun collapse_spaces :: "bool \<Rightarrow> string \<Rightarrow> string" where
  "collapse_spaces in_run [] = []"
| "collapse_spaces in_run (c # cs) =
     (if is_space c
      then (if in_run then collapse_spaces True cs else CHR '' '' # collapse_spaces True cs)
      else c # collapse_spaces False cs)"

text \<open>
  \<open>.split(/\d{4}/)[0]\<close>: the text before the leftmost four digits in a row, the whole
  string when there are none. \<open>split\<close> always returns at least one piece here, since
  the pattern matches no empty string.
\<close>

fun digits4_at :: "string \<Rightarrow> bool" where
  "digits4_at (a # b # c # d # rest) = (is_digit a \<and> is_digit b \<and> is_digit c \<and> is_digit d)"
| "digits4_at _ = False"

fun split_digits4_first :: "string \<Rightarrow> string" where
  "split_digits4_first [] = []"
| "split_digits4_first (c # cs) = (if digits4_at (c # cs) then [] else c # split_digits4_first cs)"

section \<open>The title sanitizer\<close>

text \<open>The result object; its field \<open>keywords\<close> is \<open>keywords_str\<close> here.\<close>

record sanitized =
  sanitized_title :: string
  year :: string
  quality :: string
  keywords_str :: string

definition possibleKeywords :: "string list" where
  "possibleKeywords =
     [''REMUX'', ''BluRay'', ''UNTOUCHED'', ''HDR10'', ''IMAX'', ''Hallowed'', ''REMASTERED'']"

definition matched_keywords :: "string \<Rightarrow> string list" where
  "matched_keywords title =
     filter (\<lambda>keyword. includes_str (toUpperCase title) (toUpperCase keyword)) possibleKeywords"

definition clean_title :: "string \<Rightarrow> string" where
  "clean_title title =
     collapse_spaces False (trim (replace_brackets (replace_dots (strip_extension title))))"

text \<open>
  \<open>sanitizeMovieTitle\<close>. The argument is a string or \<open>null\<close> (\<open>None\<close>); \<open>!title\<close>
  holds of \<open>null\<close> and of the empty string, and the function then returns \<open>null\<close>.
\<close>

definition sanitizeMovieTitle :: "string option \<Rightarrow> sanitized option" where
  "sanitizeMovieTitle t =
     (case t of
        None \<Rightarrow> None
      | Some title \<Rightarrow>
          if title = [] then None
          else
            let yearMatch = first_match year_at False title;
                qualityMatch = first_match quality_at False title;
                keywords_list = matched_keywords title;
                sanitizedTitle = clean_title title
            in Some \<lparr> sanitized_title = trim (split_digits4_first sanitizedTitle),
                      year = (case yearMatch of Some y \<Rightarrow> y | None \<Rightarrow> []),
                      quality = (case qualityMatch of Some q \<Rightarrow> q | None \<Rightarrow> []),
                      keywords_str = join_comma keywords_list \<rparr>)"

section \<open>Processing the extracted records\<close>

text \<open>
  Errors are values: \<open>TypeError\<close> is what reading a property of \<open>null\<close> raises,
  \<open>Fault\<close> is an error raised by a collaborator outside this program (the browser
  automation, the credential provider, the storage backend), with the text that names it.
\<close>

datatype error = TypeError | Fault string

text \<open>
  An object of \<open>movieData\<close>. Only \<open>original-title\<close> is ever tested, so it alone is
  given its \<open>null\<close> case; \<open>url\<close> and \<open>size\<close> are copied as they are.
\<close>

record movie =
  original_title :: "string option"
  url :: string
  size_text :: string

text \<open>A row of the sheet is an array of cells, and \<open>row[0]\<close> is \<open>undefined\<close> on the empty one.\<close>

type_synonym row = "string list"

definition row_key :: "row \<Rightarrow> string option" where
  "row_key r = (case r of [] \<Rightarrow> None | c # _ \<Rightarrow> Some c)"

text \<open>
  The callback of \<open>movies.map\<close> in \<open>processMovies\<close>: \<open>sanitized["sanitized-title"]\<close>
  raises when the sanitizer returned \<open>null\<close>.
\<close>

definition process_one :: "movie \<Rightarrow> error + row" where
  "process_one m =
     (case sanitizeMovieTitle (original_title m) of
        None \<Rightarrow> Inl TypeError
      | Some sanitized \<Rightarrow>
          Inr [case original_title m of Some t \<Rightarrow> t | None \<Rightarrow> [],
               url m,
               size_text m,
               sanitized_title sanitized,
               year sanitized,
               quality sanitized,
               keywords_str sanitized])"

fun processMovies :: "movie list \<Rightarrow> error + row list" where
  "processMovies [] = Inr []"
| "processMovies (m # ms) =
     (case process_one m of
        Inl e \<Rightarrow> Inl e
      | Inr r \<Rightarrow> (case processMovies ms of Inl e \<Rightarrow> Inl e | Inr rs \<Rightarrow> Inr (r # rs)))"

section \<open>Reconciling with the sheet\<close>

definition headers :: "row list" where
  "headers =
     [[''original-title'', ''url'', ''size'', ''sanitized-title'', ''year'', ''quality'',
       ''keywords'']]"

text \<open>
  \<open>existingMovies\<close>: the first cells of the rows read from the sheet, the first row
  (the header) left out; \<open>values\<close> is \<open>undefined\<close> (\<open>None\<close>) for an empty sheet.
\<close>

definition existingMovies :: "row list option \<Rightarrow> string option list" where
  "existingMovies values = (case values of None \<Rightarrow> [] | Some rows \<Rightarrow> map row_key (drop 1 rows))"

definition newMovies :: "row list \<Rightarrow> row list option \<Rightarrow> row list" where
  "newMovies processedMovies values =
     filter (\<lambda>m. row_key m \<notin> set (existingMovies values)) processedMovies"

definition oldMovies :: "row list \<Rightarrow> row list option \<Rightarrow> row list" where
  "oldMovies processedMovies values =
     filter (\<lambda>m. row_key m \<in> set (existingMovies values)) processedMovies"

definition orderedMovies :: "row list \<Rightarrow> row list option \<Rightarrow> row list" where
  "orderedMovies processedMovies values =
     take 10 (newMovies processedMovies values) @ oldMovies processedMovies values"

text \<open>
  The trace of a run: the calls to the storage backend and the closing of the browser,
  in the order they are made, each with how it ended (\<open>None\<close>: it returned,
  \<open>Some e\<close>: it raised \<open>e\<close>); \<open>LogError\<close> is the \<open>console.error\<close> of the
  \<open>catch\<close> block.
\<close>

datatype effect =
    SheetGet "error option"
  | SheetClear "error option"
  | SheetUpdate "row list" "error option"
  | LogError error
  | BrowserClose "error option"

text \<open>
  What the collaborators do in one run, from the point where the browser and its page
  exist (\<open>launch\<close> and \<open>newPage\<close> stand before the \<open>try\<close> block). An \<open>item\<close> is
  one list item of the page with the results of its three \<open>$eval\<close> reads. In a
  \<open>world\<close>, \<open>navigate\<close> is the first error raised while logging in and opening the
  folder, if any; \<open>count_items i\<close> and \<open>scroll_down i\<close> are the two \<open>page.evaluate\<close>
  calls of the \<open>i\<close>-th scroll cycle; \<open>query_items\<close> is \<open>page.$$\<close>; \<open>get_client\<close> is
  \<open>authorize()\<close>; \<open>sheet_values\<close> is what \<open>values.get\<close> returns in
  \<open>current.data.values\<close>; \<open>clear_sheet\<close>, \<open>update_sheet\<close> and \<open>close_browser\<close> are
  the results of \<open>values.clear\<close>, \<open>values.update\<close> and \<open>browser.close\<close>.
\<close>

record item =
  countitems_text :: "error + string"
  input_value :: "error + string"
  badge_text :: "error + string"

record world =
  navigate :: "error option"
  count_items :: "nat \<Rightarrow> error + nat"
  scroll_down :: "nat \<Rightarrow> error option"
  query_items :: "error + item list"
  get_client :: "error option"
  sheet_values :: "error + row list option"
  clear_sheet :: "error option"
  update_sheet :: "error option"
  close_browser :: "error option"

text \<open>
  \<open>updateSheet\<close>: read, reconcile, clear, write; the first call that raises ends it.
  The result is the error raised, if any, and the calls made.
\<close>

definition updateSheet :: "world \<Rightarrow> row list \<Rightarrow> error option \<times> effect list" where
  "updateSheet w processedMovies =
     (case sheet_values w of
        Inl e \<Rightarrow> (Some e, [SheetGet (Some e)])
      | Inr values \<Rightarrow>
          (case clear_sheet w of
             Some e \<Rightarrow> (Some e, [SheetGet None, SheetClear (Some e)])
           | None \<Rightarrow>
               (let written = headers @ orderedMovies processedMovies values
                in (update_sheet w,
                    [SheetGet None, SheetClear None, SheetUpdate written (update_sheet w)]))))"

section \<open>The scroll loop\<close>

text \<open>
  The \<open>while\<close> loop of \<open>crawlAndUpdate\<close>. Its state is the number of the cycle,
  \<open>prevContentLength\<close> and \<open>noChangeCount\<close>; \<open>count_items i\<close> is what the \<open>i\<close>-th
  reading of the item count gives and \<open>scroll_down i\<close> what the \<open>i\<close>-th scroll does.
  The rejection of \<open>waitForFunction\<close> is caught and dropped, so the wait leaves no
  trace in the state. The loop may run forever: not returning is \<open>None\<close>.
\<close>

partial_function (option) scroll_loop ::
  "(nat \<Rightarrow> error + nat) \<Rightarrow> (nat \<Rightarrow> error option) \<Rightarrow> nat \<Rightarrow> nat \<Rightarrow> nat
     \<Rightarrow> (error + nat \<times> nat \<times> nat) option" where
  "scroll_loop cnt scr i prevContentLength noChangeCount =
     (if noChangeCount < 5 then
        (case cnt i of
           Inl e \<Rightarrow> Some (Inl e)
         | Inr currentContentLength \<Rightarrow>
             (case scr i of
                Some e \<Rightarrow> Some (Inl e)
              | None \<Rightarrow>
                  if 5 \<le> (if currentContentLength = prevContentLength
                           then noChangeCount + 1 else 0)
                  then Some (Inr (i + 1, currentContentLength,
                                   if currentContentLength = prevContentLength
                                   then noChangeCount + 1 else 0))
                  else scroll_loop cnt scr (i + 1) currentContentLength
                         (if currentContentLength = prevContentLength
                          then noChangeCount + 1 else 0)))
      else Some (Inr (i, prevContentLength, noChangeCount)))"

declare scroll_loop.simps [code]

section \<open>The run\<close>

text \<open>
  The extraction loop: a read that fails gives \<open>null\<close>, and an item is kept when its
  three values are truthy (neither \<open>null\<close> nor the empty string).
\<close>

definition catch_null :: "error + string \<Rightarrow> string option" where
  "catch_null r = (case r of Inl _ \<Rightarrow> None | Inr v \<Rightarrow> Some v)"

definition truthy :: "string option \<Rightarrow> bool" where
  "truthy v = (case v of None \<Rightarrow> False | Some s \<Rightarrow> s \<noteq> [])"

fun extract_movies :: "item list \<Rightarrow> movie list" where
  "extract_movies [] = []"
| "extract_movies (d # ds) =
     (let originalTitle = catch_null (countitems_text d);
          dlurl = catch_null (input_value d);
          size = catch_null (badge_text d)
      in if truthy originalTitle \<and> truthy dlurl \<and> truthy size
         then \<lparr> original_title = originalTitle,
                url = (case dlurl of Some u \<Rightarrow> u | None \<Rightarrow> []),
                size_text = (case size of Some s \<Rightarrow> s | None \<Rightarrow> []) \<rparr> # extract_movies ds
         else extract_movies ds)"

text \<open>
  The \<open>try\<close> block of \<open>crawlAndUpdate\<close>: log in and navigate, scroll, extract,
  authorize, process, update the sheet. The result is the error that left the block, if
  any, and the calls made; \<open>None\<close> when the scroll loop never ends.
\<close>

definition try_block :: "world \<Rightarrow> (error option \<times> effect list) option" where
  "try_block w =
     (case navigate w of
        Some e \<Rightarrow> Some (Some e, [])
      | None \<Rightarrow>
          (case scroll_loop (count_items w) (scroll_down w) 0 0 0 of
             None \<Rightarrow> None
           | Some (Inl e) \<Rightarrow> Some (Some e, [])
           | Some (Inr _) \<Rightarrow>
               (case query_items w of
                  Inl e \<Rightarrow> Some (Some e, [])
                | Inr divs \<Rightarrow>
                    (case get_client w of
                       Some e \<Rightarrow> Some (Some e, [])
                     | None \<Rightarrow>
                         (case processMovies (extract_movies divs) of
                            Inl e \<Rightarrow> Some (Some e, [])
                          | Inr processedMovies \<Rightarrow> Some (updateSheet w processedMovies))))))"

text \<open>
  \<open>crawlAndUpdate\<close>: the \<open>catch\<close> block logs the error and does not raise it again;
  the \<open>finally\<close> block closes the browser. \<open>outcome\<close> is how the promise of
  \<open>crawlAndUpdate()\<close> settles: \<open>None\<close> fulfilled, \<open>Some e\<close> rejected with \<open>e\<close>.
\<close>

record run =
  effects :: "effect list"
  outcome :: "error option"

definition crawlAndUpdate :: "world \<Rightarrow> run option" where
  "crawlAndUpdate w =
     (case try_block w of
        None \<Rightarrow> None
      | Some (err, made) \<Rightarrow>
          Some \<lparr> effects = made @ (case err of Some e \<Rightarrow> [LogError e] | None \<Rightarrow> [])
                               @ [BrowserClose (close_browser w)],
                 outcome = close_browser w \<rparr>)"

text \<open>
  The program is the one call \<open>crawlAndUpdate()\<close> at top level: Node ends with code 0
  when that promise is fulfilled and with code 1 when it is rejected and nothing
  handles the rejection.
\<close>

definition exit_code :: "run \<Rightarrow> nat" where
  "exit_code r = (case outcome r of None \<Rightarrow> 0 | Some _ \<Rightarrow> 1)"

text \<open>
  The run in which the error \<open>e\<close> has left the \<open>try\<close> block after the calls \<open>made\<close>:
  the error is logged, then the browser is closed, and the run ends as the closing ends.
\<close>

abbreviation caught_run :: "world \<Rightarrow> effect list \<Rightarrow> error \<Rightarrow> run" where
  "caught_run w made e \<equiv>
     \<lparr> effects = made @ [LogError e, BrowserClose (close_browser w)],
       outcome = close_browser w \<rparr>"

section \<open>Reconciliation as the specification words it\<close>

text \<open>
  The merge of section 4.4 of the specification: the first \<open>admitCap\<close> fresh records
  whose key is not a key of the prior records, then all the prior records.
\<close>

definition reconcile_spec :: "row list \<Rightarrow> row list \<Rightarrow> nat \<Rightarrow> row list" where
  "reconcile_spec freshRecords priorRecords admitCap =
     take admitCap (filter (\<lambda>m. row_key m \<notin> set (map row_key priorRecords)) freshRecords)
       @ priorRecords"

text \<open>The rows of the sheet below its header: the prior records.\<close>

definition priorRecords :: "row list option \<Rightarrow> row list" where
  "priorRecords values = (case values of None \<Rightarrow> [] | Some rows \<Rightarrow> drop 1 rows)"

section \<open>The scroll loop on a sequence of observed counts\<close>

text \<open>
  The count that the \<open>i\<close>-th reading is compared with: the reading before it, and
  0 (the initial \<open>prevContentLength\<close>) for the first.
\<close>

definition count_before :: "(nat \<Rightarrow> nat) \<Rightarrow> nat \<Rightarrow> nat" where
  "count_before obs i = (case i of 0 \<Rightarrow> 0 | Suc j \<Rightarrow> obs j)"

text \<open>
  The no-change streak of the specification (section 4.2) after \<open>n\<close> cycles: it grows
  by one in a cycle whose reading equals the one before and goes back to 0 otherwise.
\<close>

fun noChangeStreak :: "(nat \<Rightarrow> nat) \<Rightarrow> nat \<Rightarrow> nat" where
  "noChangeStreak obs 0 = 0"
| "noChangeStreak obs (Suc i) =
     (if obs i = count_before obs i then Suc (noChangeStreak obs i) else 0)"

text \<open>The last five of the first \<open>n\<close> cycles all read the count read before them.\<close>

definition five_unchanged :: "(nat \<Rightarrow> nat) \<Rightarrow> nat \<Rightarrow> bool" where
  "five_unchanged obs n = (5 \<le> n \<and> (\<forall>i \<in> set [n - 5..<n]. obs i = count_before obs i))"

section \<open>Shapes of cleaned titles\<close>

text \<open>
  White space occurs in the string only as single spaces, none next to another; the
  flag says whether a space stands just before the string.
\<close>

fun single_spaced :: "bool \<Rightarrow> string \<Rightarrow> bool" where
  "single_spaced after_space [] = True"
| "single_spaced after_space (c # cs) =
     (if is_space c then c = CHR '' '' \<and> \<not> after_space \<and> single_spaced True cs
      else single_spaced False cs)"

text \<open>Nowhere in the string do four digits stand in a row.\<close>

fun no_digits4 :: "string \<Rightarrow> bool" where
  "no_digits4 [] = True"
| "no_digits4 (c # cs) = (\<not> digits4_at (c # cs) \<and> no_digits4 cs)"

text \<open>A code unit that neither of the two replacements touches.\<close>

definition plain :: "char \<Rightarrow> bool" where
  "plain c = (c \<noteq> CHR ''.'' \<and> \<not> is_bracket c)"

section \<open>The example of the specification\<close>

text \<open>
  C4 (as the code has it). Sanitizing \<open>The.Thing.2011.1080p.BluRay.REMUX.mkv\<close> gives the
  title \<open>The Thing\<close>, the year \<open>2011\<close>, the quality \<open>1080p\<close> and the keywords
  \<open>REMUX,BluRay\<close>: the tags come in the order of the vocabulary, where \<open>REMUX\<close> is
  declared before \<open>BluRay\<close>.
\<close>

theorem sanitize_the_thing:
  "sanitizeMovieTitle (Some ''The.Thing.2011.1080p.BluRay.REMUX.mkv'') =
     Some \<lparr> sanitized_title = ''The Thing'', year = ''2011'', quality = ''1080p'',
            keywords_str = ''REMUX,BluRay'' \<rparr>"
  by code_simp

text \<open>
  C4 (as the specification states it). The keywords of that title are not
  \<open>BluRay,REMUX\<close>.
\<close>

theorem sanitize_the_thing_keywords_counterexample:
  "map_option keywords_str (sanitizeMovieTitle (Some ''The.Thing.2011.1080p.BluRay.REMUX.mkv''))
     \<noteq> Some ''BluRay,REMUX''"
  by code_simp

section \<open>Facts about the sanitizer\<close>

lemma sanitizeMovieTitle_None_iff:
  "sanitizeMovieTitle t = None \<longleftrightarrow> t = None \<or> t = Some []"
  by (cases t) (simp_all add: sanitizeMovieTitle_def Let_def)

lemma sanitizeMovieTitle_Some:
  assumes "title \<noteq> []"
  shows "sanitizeMovieTitle (Some title) =
           Some \<lparr> sanitized_title = trim (split_digits4_first (clean_title title)),
                  year = (case first_match year_at False title of Some y \<Rightarrow> y | None \<Rightarrow> []),
                  quality = (case first_match quality_at False title of Some q \<Rightarrow> q | None \<Rightarrow> []),
                  keywords_str = join_comma (matched_keywords title) \<rparr>"
  using assms by (simp add: sanitizeMovieTitle_def Let_def)

lemma year_at_Some:
  assumes "year_at pw s = Some y"
  shows "length y = 4 \<and> prefix y s \<and> list_all is_digit y"
proof -
  obtain a b c d rest where s: "s = a # b # c # d # rest"
    using assms by (cases "(pw, s)" rule: year_at.cases) auto
  from assms s have y: "y = [a, b, c, d]" and ok: "[a, b] = ''20'' \<or> [a, b] = ''19''"
    and cd: "is_digit c" "is_digit d"
    by (auto split: if_splits)
  from ok have "is_digit a \<and> is_digit b" by (auto simp: is_digit_def)
  with y s cd show ?thesis by simp
qed

lemma quality_at_Some:
  assumes "quality_at pw s = Some q"
  shows "q \<in> set [''1080p'', ''720p'', ''2160p''] \<and> prefix q s"
  using assms by (auto simp: quality_at_def literal_at_def split: if_splits)

text \<open>A match found by the scan is a match of the pattern at some position of the string.\<close>

lemma first_match_Some:
  assumes "first_match m pw s = Some r"
  shows "\<exists>pw' ps ss. s = ps @ ss \<and> m pw' ss = Some r"
  using assms
proof (induction s arbitrary: pw)
  case Nil
  then show ?case by auto
next
  case (Cons c cs)
  show ?case
  proof (cases "m pw (c # cs)")
    case None
    with Cons.prems have "first_match m (is_word c) cs = Some r" by simp
    from Cons.IH [OF this] obtain pw' ps ss where "cs = ps @ ss" "m pw' ss = Some r" by blast
    then have "c # cs = (c # ps) @ ss \<and> m pw' ss = Some r" by simp
    then show ?thesis by blast
  next
    case (Some a)
    with Cons.prems have "m pw (c # cs) = Some r" by simp
    then have "c # cs = [] @ (c # cs) \<and> m pw (c # cs) = Some r" by simp
    then show ?thesis by blast
  qed
qed

lemma year_match_shape:
  assumes "first_match year_at pw s = Some y"
  shows "length y = 4 \<and> list_all is_digit y \<and> sublist y s"
proof -
  from first_match_Some [OF assms] obtain pw' ps ss where s: "s = ps @ ss"
    and m: "year_at pw' ss = Some y" by blast
  from year_at_Some [OF m] obtain zs where "ss = y @ zs" and "length y = 4" "list_all is_digit y"
    by (auto simp: prefix_def)
  with s show ?thesis by (auto simp: sublist_def)
qed

lemma quality_match_shape:
  assumes "first_match quality_at pw s = Some q"
  shows "q \<in> set [''1080p'', ''720p'', ''2160p''] \<and> sublist q s"
proof -
  from first_match_Some [OF assms] obtain pw' ps ss where s: "s = ps @ ss"
    and m: "quality_at pw' ss = Some q" by blast
  from quality_at_Some [OF m] obtain zs where "ss = q @ zs"
    and "q \<in> set [''1080p'', ''720p'', ''2160p'']"
    by (auto simp: prefix_def)
  with s show ?thesis by (auto simp: sublist_def)
qed

text \<open>
  C7. The sanitizer returns \<open>null\<close> exactly when its argument is \<open>null\<close> or the empty
  string. On every other string it returns a result (no step of it can raise), whose
  year is the empty string exactly when the year pattern has no match in the title, and
  otherwise four digits found in the title; whose quality is the empty string exactly
  when the quality pattern has no match, and otherwise one of the three tags, found in
  the title.
\<close>

lemma year_field:
  fixes title :: string
  defines "y \<equiv> (case first_match year_at False title of Some y \<Rightarrow> y | None \<Rightarrow> [])"
  shows "(y = [] \<longleftrightarrow> first_match year_at False title = None)
         \<and> (y \<noteq> [] \<longrightarrow> length y = 4 \<and> list_all is_digit y \<and> sublist y title)"
proof (cases "first_match year_at False title")
  case None
  then show ?thesis by (simp add: y_def)
next
  case (Some a)
  from year_match_shape [OF Some] have "length a = 4" "list_all is_digit a" "sublist a title"
    by simp_all
  moreover from \<open>length a = 4\<close> have "a \<noteq> []" by auto
  moreover have "y = a" using Some by (simp add: y_def)
  ultimately show ?thesis using Some by simp
qed

lemma quality_field:
  fixes title :: string
  defines "q \<equiv> (case first_match quality_at False title of Some q \<Rightarrow> q | None \<Rightarrow> [])"
  shows "(q = [] \<longleftrightarrow> first_match quality_at False title = None)
         \<and> (q \<noteq> [] \<longrightarrow> q \<in> set [''1080p'', ''720p'', ''2160p''] \<and> sublist q title)"
proof (cases "first_match quality_at False title")
  case None
  then show ?thesis by (simp add: q_def)
next
  case (Some a)
  from quality_match_shape [OF Some]
  have "a \<in> set [''1080p'', ''720p'', ''2160p'']" "sublist a title"
    by simp_all
  moreover from \<open>a \<in> set [''1080p'', ''720p'', ''2160p'']\<close> have "a \<noteq> []" by auto
  moreover have "q = a" using Some by (simp add: q_def)
  ultimately show ?thesis using Some by simp
qed

text \<open>
  C7. The sanitizer returns \<open>null\<close> exactly when its argument is \<open>null\<close> or the empty
  string. On every other string it returns a result (no step of it can raise), whose
  year is the empty string exactly when the year pattern has no match in the title, and
  otherwise four digits found in the title; whose quality is the empty string exactly
  when the quality pattern has no match, and otherwise one of the three tags, found in
  the title.
\<close>

theorem sanitizer_null_iff_no_input:
  "(sanitizeMovieTitle t = None \<longleftrightarrow> t = None \<or> t = Some [])
   \<and> (title \<noteq> [] \<longrightarrow>
        (\<exists>r. sanitizeMovieTitle (Some title) = Some r
           \<and> (year r = [] \<longleftrightarrow> first_match year_at False title = None)
           \<and> (year r \<noteq> [] \<longrightarrow>
                 length (year r) = 4 \<and> list_all is_digit (year r) \<and> sublist (year r) title)
           \<and> (quality r = [] \<longleftrightarrow> first_match quality_at False title = None)
           \<and> (quality r \<noteq> [] \<longrightarrow>
                 quality r \<in> set [''1080p'', ''720p'', ''2160p''] \<and> sublist (quality r) title)))"
proof (intro conjI impI)
  show "sanitizeMovieTitle t = None \<longleftrightarrow> t = None \<or> t = Some []"
    by (rule sanitizeMovieTitle_None_iff)
next
  assume ne: "title \<noteq> []"
  let ?r = "\<lparr> sanitized_title = trim (split_digits4_first (clean_title title)),
              year = (case first_match year_at False title of Some y \<Rightarrow> y | None \<Rightarrow> []),
              quality = (case first_match quality_at False title of Some q \<Rightarrow> q | None \<Rightarrow> []),
              keywords_str = join_comma (matched_keywords title) \<rparr>"
  have r: "sanitizeMovieTitle (Some title) = Some ?r"
    by (rule sanitizeMovieTitle_Some [OF ne])
  have "sanitizeMovieTitle (Some title) = Some ?r
           \<and> (year ?r = [] \<longleftrightarrow> first_match year_at False title = None)
           \<and> (year ?r \<noteq> [] \<longrightarrow>
                 length (year ?r) = 4 \<and> list_all is_digit (year ?r) \<and> sublist (year ?r) title)
           \<and> (quality ?r = [] \<longleftrightarrow> first_match quality_at False title = None)
           \<and> (quality ?r \<noteq> [] \<longrightarrow>
                 quality ?r \<in> set [''1080p'', ''720p'', ''2160p''] \<and> sublist (quality ?r) title)"
    using r year_field [of title] quality_field [of title] by simp
  then show "\<exists>r. sanitizeMovieTitle (Some title) = Some r
           \<and> (year r = [] \<longleftrightarrow> first_match year_at False title = None)
           \<and> (year r \<noteq> [] \<longrightarrow>
                 length (year r) = 4 \<and> list_all is_digit (year r) \<and> sublist (year r) title)
           \<and> (quality r = [] \<longleftrightarrow> first_match quality_at False title = None)
           \<and> (quality r \<noteq> [] \<longrightarrow>
                 quality r \<in> set [''1080p'', ''720p'', ''2160p''] \<and> sublist (quality r) title)"
    by (rule exI [of _ ?r])
qed

theorem sanitizer_null_iff_no_input_witness:
  "sanitizeMovieTitle None = None \<and> sanitizeMovieTitle (Some []) = None
   \<and> (\<exists>r. sanitizeMovieTitle (Some ''Alien.720p.mkv'') = Some r
          \<and> year r = [] \<and> quality r \<in> set [''1080p'', ''720p'', ''2160p''])"
proof -
  let ?t = "''Alien.720p.mkv''"
  have y: "first_match year_at False ?t = None" by code_simp
  have q: "first_match quality_at False ?t \<noteq> None" by code_simp
  have n: "?t \<noteq> []" by simp
  have "?t \<noteq> [] \<longrightarrow>
        (\<exists>r. sanitizeMovieTitle (Some ?t) = Some r
           \<and> (year r = [] \<longleftrightarrow> first_match year_at False ?t = None)
           \<and> (year r \<noteq> [] \<longrightarrow>
                 length (year r) = 4 \<and> list_all is_digit (year r) \<and> sublist (year r) ?t)
           \<and> (quality r = [] \<longleftrightarrow> first_match quality_at False ?t = None)
           \<and> (quality r \<noteq> [] \<longrightarrow>
                 quality r \<in> set [''1080p'', ''720p'', ''2160p''] \<and> sublist (quality r) ?t))"
    by (rule conjunct2 [OF sanitizer_null_iff_no_input [of None ?t]])
  from mp [OF this n] obtain r where r: "sanitizeMovieTitle (Some ?t) = Some r"
    and yr: "year r = [] \<longleftrightarrow> first_match year_at False ?t = None"
    and qr: "quality r = [] \<longleftrightarrow> first_match quality_at False ?t = None"
    and qs: "quality r \<noteq> [] \<longrightarrow>
               quality r \<in> set [''1080p'', ''720p'', ''2160p''] \<and> sublist (quality r) ?t"
    by (elim exE conjE)
  from yr y have y0: "year r = []" by (rule iffD2)
  from qr q have "quality r \<noteq> []" by simp
  with qs have q0: "quality r \<in> set [''1080p'', ''720p'', ''2160p'']"
    by (elim impE conjE)
  have a: "sanitizeMovieTitle None = None"
    using conjunct1 [OF sanitizer_null_iff_no_input [of None ?t]] by (simp only: simp_thms)
  have b: "sanitizeMovieTitle (Some []) = None"
    using conjunct1 [OF sanitizer_null_iff_no_input [of "Some []" ?t]] by (simp only: simp_thms)
  from r y0 q0 have "\<exists>r. sanitizeMovieTitle (Some ?t) = Some r
          \<and> year r = [] \<and> quality r \<in> set [''1080p'', ''720p'', ''2160p'']"
    by (intro exI [of _ r] conjI)
  with a b show ?thesis by (intro conjI)
qed

section \<open>Keyword detection\<close>

lemma includes_str_iff_sublist: "includes_str s k \<longleftrightarrow> sublist k s"
  by (induction s) (simp_all add: sublist_Cons_right)

lemma toUpperCase_append: "toUpperCase (a @ b) = toUpperCase a @ toUpperCase b"
  by (simp add: toUpperCase_def)

lemma matched_keywords_sublist:
  "matched_keywords title =
     filter (\<lambda>k. sublist (toUpperCase k) (toUpperCase title)) possibleKeywords"
  by (simp add: matched_keywords_def includes_str_iff_sublist)

lemma distinct_possibleKeywords: "distinct possibleKeywords"
  by code_simp

lemma Hallowed_possible: "''Hallowed'' \<in> set possibleKeywords"
  by code_simp

lemma unhallowed_upper:
  assumes "sublist ''Unhallowed'' title"
  shows "sublist (toUpperCase ''Hallowed'') (toUpperCase title)"
proof -
  from assms obtain ps ss where t: "title = ps @ ''Unhallowed'' @ ss"
    unfolding sublist_def by (elim exE)
  have u: "toUpperCase ''Unhallowed'' = ''UN'' @ toUpperCase ''Hallowed''"
    by code_simp
  have "toUpperCase title = (toUpperCase ps @ ''UN'') @ toUpperCase ''Hallowed'' @ toUpperCase ss"
    unfolding t toUpperCase_append u by (simp only: append_assoc)
  then show ?thesis
    unfolding sublist_def by (intro exI)
qed

lemma sublist_join_comma:
  assumes "k \<in> set xs"
  shows "sublist k (join_comma xs)"
  using assms
proof (induction xs rule: join_comma.induct)
  case 1
  then show ?case by simp
next
  case (2 x)
  then show ?case by simp
next
  case (3 x y ys)
  show ?case
  proof (cases "k = x")
    case True
    have "join_comma (x # y # ys) = [] @ x @ ('','' @ join_comma (y # ys))"
      by simp
    then show ?thesis
      unfolding True sublist_def by (intro exI)
  next
    case False
    with "3.prems" have "k \<in> set (y # ys)" by simp
    from "3.IH" [OF this] obtain ps ss where "join_comma (y # ys) = ps @ k @ ss"
      unfolding sublist_def by (elim exE)
    then have "join_comma (x # y # ys) = (x @ '','' @ ps) @ k @ ss"
      by simp
    then show ?thesis
      unfolding sublist_def by (intro exI)
  qed
qed

text \<open>
  C10. The keywords of a result are the comma-joined list of the tags of the vocabulary
  whose upper-case form occurs anywhere in the upper-case title, as a contiguous run of
  code units and so also inside a longer word: a title in which \<open>Unhallowed\<close> occurs
  has the tag \<open>Hallowed\<close>, which then occurs in the keywords. The list is a
  subsequence of the vocabulary, so it keeps the declared order, and no tag is in it
  twice.
\<close>

theorem keywords_substring_matching:
  assumes "sanitizeMovieTitle (Some title) = Some r"
  shows "keywords_str r = join_comma (matched_keywords title)
         \<and> (\<forall>k \<in> set possibleKeywords.
               k \<in> set (matched_keywords title)
                 \<longleftrightarrow> sublist (toUpperCase k) (toUpperCase title))
         \<and> subseq (matched_keywords title) possibleKeywords
         \<and> distinct (matched_keywords title)
         \<and> (sublist ''Unhallowed'' title \<longrightarrow>
               ''Hallowed'' \<in> set (matched_keywords title) \<and> sublist ''Hallowed'' (keywords_str r))"
proof -
  from assms have ne: "title \<noteq> []"
    using sanitizeMovieTitle_None_iff [of "Some title"] by (cases title) simp_all
  from assms have k: "keywords_str r = join_comma (matched_keywords title)"
    unfolding sanitizeMovieTitle_Some [OF ne] by (cases r) simp
  have m: "\<forall>k \<in> set possibleKeywords.
               k \<in> set (matched_keywords title)
                 \<longleftrightarrow> sublist (toUpperCase k) (toUpperCase title)"
    unfolding matched_keywords_sublist by simp
  have s: "subseq (matched_keywords title) possibleKeywords"
    unfolding matched_keywords_sublist by (rule subseq_filter_left)
  have d: "distinct (matched_keywords title)"
    unfolding matched_keywords_sublist by (rule distinct_filter [OF distinct_possibleKeywords])
  have h: "''Hallowed'' \<in> set (matched_keywords title) \<and> sublist ''Hallowed'' (keywords_str r)"
    if u: "sublist ''Unhallowed'' title"
  proof -
    from bspec [OF m Hallowed_possible] unhallowed_upper [OF u]
    have i: "''Hallowed'' \<in> set (matched_keywords title)"
      by (rule iffD2)
    from sublist_join_comma [OF i] have "sublist ''Hallowed'' (keywords_str r)"
      unfolding k .
    with i show ?thesis by (rule conjI)
  qed
  from h have hi: "sublist ''Unhallowed'' title \<longrightarrow>
               ''Hallowed'' \<in> set (matched_keywords title) \<and> sublist ''Hallowed'' (keywords_str r)"
    by (rule impI)
  from k m s d hi show ?thesis by (intro conjI)
qed

theorem keywords_substring_matching_witness:
  "keywords_str \<lparr> sanitized_title = ''Unhallowed Ground'', year = ''2007'', quality = ''720p'',
                  keywords_str = ''BluRay,Hallowed'' \<rparr>
     = join_comma (matched_keywords ''Unhallowed.Ground.2007.720p.bluray.mkv'')
   \<and> ''Hallowed'' \<in> set (matched_keywords ''Unhallowed.Ground.2007.720p.bluray.mkv'')"
proof -
  let ?t = "''Unhallowed.Ground.2007.720p.bluray.mkv''"
  let ?r = "\<lparr> sanitized_title = ''Unhallowed Ground'', year = ''2007'', quality = ''720p'',
              keywords_str = ''BluRay,Hallowed'' \<rparr>"
  have r: "sanitizeMovieTitle (Some ?t) = Some ?r" by code_simp
  have u: "sublist ''Unhallowed'' ?t" by code_simp
  note T = keywords_substring_matching [OF r]
  from T have a: "keywords_str ?r = join_comma (matched_keywords ?t)"
    by (rule conjunct1)
  from T have "sublist ''Unhallowed'' ?t \<longrightarrow>
               ''Hallowed'' \<in> set (matched_keywords ?t) \<and> sublist ''Hallowed'' (keywords_str ?r)"
    by (elim conjE)
  from mp [OF this u] have b: "''Hallowed'' \<in> set (matched_keywords ?t)"
    by (rule conjunct1)
  from a b show ?thesis by (rule conjI)
qed

section \<open>Processing never meets a null\<close>

lemma process_one_truthy:
  assumes "truthy (original_title m)"
  shows "\<exists>r. process_one m = Inr r"
proof -
  from assms obtain t where t: "original_title m = Some t" and ne: "t \<noteq> []"
    by (cases "original_title m") (simp_all add: truthy_def)
  show ?thesis
    unfolding process_one_def t sanitizeMovieTitle_Some [OF ne] by simp
qed

lemma processMovies_truthy:
  assumes "\<forall>m \<in> set movies. truthy (original_title m)"
  shows "\<exists>rows. processMovies movies = Inr rows \<and> length rows = length movies"
  using assms
proof (induction movies)
  case Nil
  then show ?case by simp
next
  case (Cons m ms)
  from Cons.prems have "truthy (original_title m)" by simp
  from process_one_truthy [OF this] obtain r where r: "process_one m = Inr r" ..
  from Cons.prems have "\<forall>m \<in> set ms. truthy (original_title m)" by simp
  from Cons.IH [OF this] obtain rs where rs: "processMovies ms = Inr rs"
    and l: "length rs = length ms" by blast
  show ?case by (simp add: r rs l)
qed

lemma extract_movies_truthy: "\<forall>m \<in> set (extract_movies divs). truthy (original_title m)"
  by (induction divs) (simp_all add: Let_def)

lemma processMovies_extract_movies:
  "\<exists>rows. processMovies (extract_movies divs) = Inr rows"
  using processMovies_truthy [OF extract_movies_truthy [of divs]] by blast

text \<open>
  C9. Every record the extraction loop emits has a title that is neither \<open>null\<close> nor
  empty. On a list of such records, the sanitizer returns \<open>null\<close> for none of them,
  and \<open>processMovies\<close> returns its rows, one for each record, and does not raise; so
  processing an extracted list never raises.
\<close>

theorem processing_extracted_never_raises:
  "(\<forall>m \<in> set (extract_movies divs). truthy (original_title m))
   \<and> ((\<forall>m \<in> set movies. truthy (original_title m)) \<longrightarrow>
        (\<forall>m \<in> set movies. sanitizeMovieTitle (original_title m) \<noteq> None)
        \<and> (\<exists>rows. processMovies movies = Inr rows \<and> length rows = length movies))
   \<and> (\<exists>rows. processMovies (extract_movies divs) = Inr rows)"
proof (intro conjI impI)
  show "\<forall>m \<in> set (extract_movies divs). truthy (original_title m)"
    by (rule extract_movies_truthy)
next
  assume a: "\<forall>m \<in> set movies. truthy (original_title m)"
  show "\<forall>m \<in> set movies. sanitizeMovieTitle (original_title m) \<noteq> None"
  proof
    fix m assume "m \<in> set movies"
    with a have "truthy (original_title m)" by simp
    then show "sanitizeMovieTitle (original_title m) \<noteq> None"
      by (cases "original_title m") (simp_all add: truthy_def sanitizeMovieTitle_None_iff)
  qed
next
  assume a: "\<forall>m \<in> set movies. truthy (original_title m)"
  then show "\<exists>rows. processMovies movies = Inr rows \<and> length rows = length movies"
    by (rule processMovies_truthy)
next
  show "\<exists>rows. processMovies (extract_movies divs) = Inr rows"
    by (rule processMovies_extract_movies)
qed

theorem processing_extracted_never_raises_witness:
  "processMovies (extract_movies
     [\<lparr> countitems_text = Inr ''Alien.1979.mkv'', input_value = Inr ''u1'', badge_text = Inr ''2 GB'' \<rparr>,
      \<lparr> countitems_text = Inl (Fault ''no element''), input_value = Inr ''u2'',
        badge_text = Inr ''1 GB'' \<rparr>,
      \<lparr> countitems_text = Inr [], input_value = Inr ''u3'', badge_text = Inr ''3 GB'' \<rparr>])
   \<noteq> Inl TypeError
   \<and> processMovies [\<lparr> original_title = None, url = ''u'', size_text = ''1 GB'' \<rparr>] = Inl TypeError"
proof -
  let ?divs = "[\<lparr> countitems_text = Inr ''Alien.1979.mkv'', input_value = Inr ''u1'',
                  badge_text = Inr ''2 GB'' \<rparr>,
                \<lparr> countitems_text = Inl (Fault ''no element''), input_value = Inr ''u2'',
                  badge_text = Inr ''1 GB'' \<rparr>,
                \<lparr> countitems_text = Inr [], input_value = Inr ''u3'', badge_text = Inr ''3 GB'' \<rparr>]"
  let ?ms = "[\<lparr> original_title = Some ''Alien.1979.mkv'', url = ''u1'', size_text = ''2 GB'' \<rparr>]"
  have e: "extract_movies ?divs = ?ms" by code_simp
  have t: "\<forall>m \<in> set ?ms. truthy (original_title m)" by (simp add: truthy_def)
  note T = processing_extracted_never_raises [of ?divs ?ms]
  from T have "(\<forall>m \<in> set ?ms. truthy (original_title m)) \<longrightarrow>
        (\<forall>m \<in> set ?ms. sanitizeMovieTitle (original_title m) \<noteq> None)
        \<and> (\<exists>rows. processMovies ?ms = Inr rows \<and> length rows = length ?ms)"
    by (elim conjE)
  from mp [OF this t] obtain rows where r: "processMovies ?ms = Inr rows"
    by (elim conjE exE)
  have v: "processMovies ?ms \<noteq> Inl TypeError"
    unfolding r by simp
  have n: "processMovies [\<lparr> original_title = None, url = ''u'', size_text = ''1 GB'' \<rparr>] = Inl TypeError"
    by code_simp
  from v n show ?thesis unfolding e by (rule conjI)
qed

section \<open>Reconciliation\<close>

lemma existingMovies_priorRecords: "existingMovies values = map row_key (priorRecords values)"
  by (cases "values") (simp_all add: existingMovies_def priorRecords_def)

lemma updateSheet_writes:
  assumes "sheet_values w = Inr values" and "clear_sheet w = None"
  shows "updateSheet w processedMovies =
           (update_sheet w,
            [SheetGet None, SheetClear None,
             SheetUpdate (headers @ orderedMovies processedMovies values) (update_sheet w)])"
  using assms by (simp add: updateSheet_def)

lemma keys_newMovies:
  "set (map row_key (newMovies fresh values)) = set (map row_key fresh) - set (existingMovies values)"
  by (auto simp: newMovies_def)

lemma keys_oldMovies:
  "set (map row_key (oldMovies fresh values)) = set (map row_key fresh) \<inter> set (existingMovies values)"
  by (auto simp: oldMovies_def)

lemma orderedMovies_subset_fresh: "set (orderedMovies fresh values) \<subseteq> set fresh"
proof -
  have "set (take 10 (newMovies fresh values)) \<subseteq> set fresh"
    using set_take_subset [of 10 "newMovies fresh values"] by (auto simp: newMovies_def)
  then show ?thesis
    by (auto simp: orderedMovies_def oldMovies_def)
qed

text \<open>
  C1 (as the code has it). The rows written below the header are the first 10 fresh
  records whose key is not in the sheet, then the fresh records whose key is in the
  sheet, both in the order of the crawl. So the keys written are the keys of those
  first 10 together with the keys that are both fresh and in the sheet; all of them are
  fresh keys; and a prior key is written exactly when the crawl has seen it again.
\<close>

theorem merged_output_from_fresh:
  "orderedMovies fresh values =
     take 10 (filter (\<lambda>m. row_key m \<notin> set (map row_key (priorRecords values))) fresh)
       @ filter (\<lambda>m. row_key m \<in> set (map row_key (priorRecords values))) fresh
   \<and> set (map row_key (orderedMovies fresh values)) =
       set (map row_key (take 10 (newMovies fresh values)))
         \<union> (set (map row_key fresh) \<inter> set (map row_key (priorRecords values)))
   \<and> set (orderedMovies fresh values) \<subseteq> set fresh
   \<and> (\<forall>k \<in> set (map row_key (priorRecords values)).
         k \<in> set (map row_key (orderedMovies fresh values)) \<longleftrightarrow> k \<in> set (map row_key fresh))
   \<and> (sheet_values w = Inr values \<and> clear_sheet w = None \<longrightarrow>
        snd (updateSheet w fresh) =
          [SheetGet None, SheetClear None,
           SheetUpdate (headers @ orderedMovies fresh values) (update_sheet w)])"
proof (intro conjI impI)
  show "orderedMovies fresh values =
     take 10 (filter (\<lambda>m. row_key m \<notin> set (map row_key (priorRecords values))) fresh)
       @ filter (\<lambda>m. row_key m \<in> set (map row_key (priorRecords values))) fresh"
    by (simp add: orderedMovies_def newMovies_def oldMovies_def existingMovies_priorRecords)
next
  show k: "set (map row_key (orderedMovies fresh values)) =
       set (map row_key (take 10 (newMovies fresh values)))
         \<union> (set (map row_key fresh) \<inter> set (map row_key (priorRecords values)))"
    unfolding orderedMovies_def map_append set_append keys_oldMovies existingMovies_priorRecords ..
  have n: "set (map row_key (take 10 (newMovies fresh values)))
             \<subseteq> set (map row_key fresh) - set (map row_key (priorRecords values))"
    using set_take_subset [of 10 "map row_key (newMovies fresh values)"]
    unfolding take_map keys_newMovies existingMovies_priorRecords .
  show "\<forall>k \<in> set (map row_key (priorRecords values)).
         k \<in> set (map row_key (orderedMovies fresh values)) \<longleftrightarrow> k \<in> set (map row_key fresh)"
    unfolding k using n by blast
next
  show "set (orderedMovies fresh values) \<subseteq> set fresh"
    by (rule orderedMovies_subset_fresh)
next
  assume "sheet_values w = Inr values \<and> clear_sheet w = None"
  then show "snd (updateSheet w fresh) =
          [SheetGet None, SheetClear None,
           SheetUpdate (headers @ orderedMovies fresh values) (update_sheet w)]"
    by (simp add: updateSheet_writes)
qed

theorem merged_output_from_fresh_witness:
  "snd (updateSheet
         \<lparr> navigate = None, count_items = (\<lambda>i. Inr 1), scroll_down = (\<lambda>i. None),
           query_items = Inr [], get_client = None,
           sheet_values = Inr (Some [[''original-title'', ''url'', ''size''],
                                     [''Alien.1979.mkv'', ''u1'', ''2 GB'']]),
           clear_sheet = None, update_sheet = None, close_browser = None \<rparr>
         [[''Heat.1995.mkv'', ''u2'', ''3 GB'', ''Heat'', ''1995'', [], []],
          [''Alien.1979.mkv'', ''u9'', ''2 GB'', ''Alien'', ''1979'', [], []]])
   = [SheetGet None, SheetClear None,
      SheetUpdate (headers @ [[''Heat.1995.mkv'', ''u2'', ''3 GB'', ''Heat'', ''1995'', [], []],
                              [''Alien.1979.mkv'', ''u9'', ''2 GB'', ''Alien'', ''1979'', [], []]])
        None]"
proof -
  let ?vals = "Some [[''original-title'', ''url'', ''size''], [''Alien.1979.mkv'', ''u1'', ''2 GB'']]"
  let ?w = "\<lparr> navigate = None, count_items = (\<lambda>i. Inr 1), scroll_down = (\<lambda>i. None),
           query_items = Inr [], get_client = None,
           sheet_values = Inr ?vals,
           clear_sheet = None, update_sheet = None, close_browser = None \<rparr>"
  let ?fresh = "[[''Heat.1995.mkv'', ''u2'', ''3 GB'', ''Heat'', ''1995'', [], []],
          [''Alien.1979.mkv'', ''u9'', ''2 GB'', ''Alien'', ''1979'', [], []]]"
  have h: "sheet_values ?w = Inr ?vals \<and> clear_sheet ?w = None" by simp
  have o: "orderedMovies ?fresh ?vals = ?fresh" by code_simp
  have u: "update_sheet ?w = None" by simp
  from merged_output_from_fresh [of ?fresh ?vals ?w]
  have "sheet_values ?w = Inr ?vals \<and> clear_sheet ?w = None \<longrightarrow>
        snd (updateSheet ?w ?fresh) =
          [SheetGet None, SheetClear None,
           SheetUpdate (headers @ orderedMovies ?fresh ?vals) (update_sheet ?w)]"
    by (elim conjE)
  from mp [OF this h] show ?thesis unfolding o u .
qed

text \<open>
  C1 (as the specification states it). With one prior record that the crawl does not
  see again and one fresh record, the rows written are not the capped new records
  followed by the prior records: the key of the prior record is not among the keys
  written, and the record is lost.
\<close>

theorem merged_output_counterexample:
  "orderedMovies [[''Heat.1995.mkv'', ''u2'', ''3 GB'', ''Heat'', ''1995'', [], []]]
       (Some [[''original-title'', ''url'', ''size''], [''Alien.1979.mkv'', ''u1'', ''2 GB'']])
     \<noteq> reconcile_spec [[''Heat.1995.mkv'', ''u2'', ''3 GB'', ''Heat'', ''1995'', [], []]]
         (priorRecords
            (Some [[''original-title'', ''url'', ''size''], [''Alien.1979.mkv'', ''u1'', ''2 GB'']]))
         10
   \<and> Some ''Alien.1979.mkv''
       \<in> set (map row_key (priorRecords
            (Some [[''original-title'', ''url'', ''size''], [''Alien.1979.mkv'', ''u1'', ''2 GB'']])))
   \<and> Some ''Alien.1979.mkv''
       \<notin> set (map row_key
            (orderedMovies [[''Heat.1995.mkv'', ''u2'', ''3 GB'', ''Heat'', ''1995'', [], []]]
               (Some [[''original-title'', ''url'', ''size''],
                      [''Alien.1979.mkv'', ''u1'', ''2 GB'']])))"
  by code_simp

lemma length_orderedMovies:
  "length (orderedMovies fresh values) =
     min 10 (length (newMovies fresh values)) + length (oldMovies fresh values)"
  by (simp add: orderedMovies_def min.commute)

text \<open>
  C2 (as the code has it). The rows written after the admitted new records are the
  fresh records whose key is in the sheet, in the order of the crawl and with the
  values the crawl has just observed; no row of the sheet is copied. The output has as
  many rows as admitted new records and already-known fresh records together: with 12
  new and 3 already-known fresh records it has 10 + 3 = 13 rows, whatever the number
  of prior rows.
\<close>

theorem known_fresh_records_are_suffix:
  "drop (min 10 (length (newMovies fresh values))) (orderedMovies fresh values)
     = filter (\<lambda>m. row_key m \<in> set (map row_key (priorRecords values))) fresh
   \<and> length (orderedMovies fresh values) =
       min 10 (length (newMovies fresh values)) + length (oldMovies fresh values)
   \<and> (length (newMovies fresh values) = 12 \<and> length (oldMovies fresh values) = 3 \<longrightarrow>
        length (orderedMovies fresh values) = 13)"
proof (intro conjI impI)
  show "drop (min 10 (length (newMovies fresh values))) (orderedMovies fresh values)
     = filter (\<lambda>m. row_key m \<in> set (map row_key (priorRecords values))) fresh"
    by (simp add: orderedMovies_def oldMovies_def existingMovies_priorRecords min.commute)
next
  show "length (orderedMovies fresh values) =
       min 10 (length (newMovies fresh values)) + length (oldMovies fresh values)"
    by (rule length_orderedMovies)
next
  assume "length (newMovies fresh values) = 12 \<and> length (oldMovies fresh values) = 3"
  then show "length (orderedMovies fresh values) = 13"
    by (simp add: length_orderedMovies)
qed

lemma instance_new:
  "length (newMovies
     (map (\<lambda>c. [[CHR ''n'', c], ''new'', ''1 GB'', [CHR ''n'', c], [], [], []]) ''0123456789ab''
      @ map (\<lambda>c. [[CHR ''p'', c], ''new'', ''1 GB'', [CHR ''p'', c], [], [], []]) ''012'')
     (Some ([''original-title'', ''url'', ''size'']
            # concat (map (\<lambda>a. map (\<lambda>c. [[a, c], ''old'', ''1 GB'']) ''0123456789'') ''pqrst'')))) = 12"
  by code_simp

lemma instance_old:
  "length (oldMovies
     (map (\<lambda>c. [[CHR ''n'', c], ''new'', ''1 GB'', [CHR ''n'', c], [], [], []]) ''0123456789ab''
      @ map (\<lambda>c. [[CHR ''p'', c], ''new'', ''1 GB'', [CHR ''p'', c], [], [], []]) ''012'')
     (Some ([''original-title'', ''url'', ''size'']
            # concat (map (\<lambda>a. map (\<lambda>c. [[a, c], ''old'', ''1 GB'']) ''0123456789'') ''pqrst'')))) = 3"
  by code_simp

theorem known_fresh_records_are_suffix_witness:
  "length (orderedMovies
     (map (\<lambda>c. [[CHR ''n'', c], ''new'', ''1 GB'', [CHR ''n'', c], [], [], []]) ''0123456789ab''
      @ map (\<lambda>c. [[CHR ''p'', c], ''new'', ''1 GB'', [CHR ''p'', c], [], [], []]) ''012'')
     (Some ([''original-title'', ''url'', ''size'']
            # concat (map (\<lambda>a. map (\<lambda>c. [[a, c], ''old'', ''1 GB'']) ''0123456789'') ''pqrst'')))) = 13"
proof -
  let ?fresh = "map (\<lambda>c. [[CHR ''n'', c], ''new'', ''1 GB'', [CHR ''n'', c], [], [], []]) ''0123456789ab''
      @ map (\<lambda>c. [[CHR ''p'', c], ''new'', ''1 GB'', [CHR ''p'', c], [], [], []]) ''012''"
  let ?vals = "Some ([''original-title'', ''url'', ''size'']
            # concat (map (\<lambda>a. map (\<lambda>c. [[a, c], ''old'', ''1 GB'']) ''0123456789'') ''pqrst''))"
  have h: "length (newMovies ?fresh ?vals) = 12 \<and> length (oldMovies ?fresh ?vals) = 3"
    using instance_new instance_old by (rule conjI)
  from known_fresh_records_are_suffix [of ?fresh ?vals]
  have "length (newMovies ?fresh ?vals) = 12 \<and> length (oldMovies ?fresh ?vals) = 3 \<longrightarrow>
        length (orderedMovies ?fresh ?vals) = 13"
    by (elim conjE)
  from mp [OF this h] show ?thesis .
qed

text \<open>
  C2 (as the specification states it). In the instance of the specification, 12 new
  and 3 already-known fresh records against 50 prior rows, the output has not 60 rows,
  and the prior row of an already-known title is not in it: the freshly observed row
  is.
\<close>

theorem known_fresh_records_counterexample:
  "length (priorRecords
     (Some ([''original-title'', ''url'', ''size'']
            # concat (map (\<lambda>a. map (\<lambda>c. [[a, c], ''old'', ''1 GB'']) ''0123456789'') ''pqrst'')))) = 50
   \<and> length (orderedMovies
     (map (\<lambda>c. [[CHR ''n'', c], ''new'', ''1 GB'', [CHR ''n'', c], [], [], []]) ''0123456789ab''
      @ map (\<lambda>c. [[CHR ''p'', c], ''new'', ''1 GB'', [CHR ''p'', c], [], [], []]) ''012'')
     (Some ([''original-title'', ''url'', ''size'']
            # concat (map (\<lambda>a. map (\<lambda>c. [[a, c], ''old'', ''1 GB'']) ''0123456789'') ''pqrst'')))) \<noteq> 60
   \<and> [''p0'', ''old'', ''1 GB'']
       \<notin> set (orderedMovies
     (map (\<lambda>c. [[CHR ''n'', c], ''new'', ''1 GB'', [CHR ''n'', c], [], [], []]) ''0123456789ab''
      @ map (\<lambda>c. [[CHR ''p'', c], ''new'', ''1 GB'', [CHR ''p'', c], [], [], []]) ''012'')
     (Some ([''original-title'', ''url'', ''size'']
            # concat (map (\<lambda>a. map (\<lambda>c. [[a, c], ''old'', ''1 GB'']) ''0123456789'') ''pqrst''))))
   \<and> [''p0'', ''new'', ''1 GB'', ''p0'', [], [], []]
       \<in> set (orderedMovies
     (map (\<lambda>c. [[CHR ''n'', c], ''new'', ''1 GB'', [CHR ''n'', c], [], [], []]) ''0123456789ab''
      @ map (\<lambda>c. [[CHR ''p'', c], ''new'', ''1 GB'', [CHR ''p'', c], [], [], []]) ''012'')
     (Some ([''original-title'', ''url'', ''size'']
            # concat (map (\<lambda>a. map (\<lambda>c. [[a, c], ''old'', ''1 GB'']) ''0123456789'') ''pqrst''))))"
  proof -
  let ?fresh = "map (\<lambda>c. [[CHR ''n'', c], ''new'', ''1 GB'', [CHR ''n'', c], [], [], []]) ''0123456789ab''
      @ map (\<lambda>c. [[CHR ''p'', c], ''new'', ''1 GB'', [CHR ''p'', c], [], [], []]) ''012''"
  let ?vals = "Some ([''original-title'', ''url'', ''size'']
            # concat (map (\<lambda>a. map (\<lambda>c. [[a, c], ''old'', ''1 GB'']) ''0123456789'') ''pqrst''))"
  have a: "length (priorRecords ?vals) = 50" by code_simp
  have b: "length (orderedMovies ?fresh ?vals) \<noteq> 60"
    unfolding length_orderedMovies instance_new instance_old by simp
  have "[''p0'', ''old'', ''1 GB''] \<notin> set ?fresh" by code_simp
  with orderedMovies_subset_fresh [of ?fresh ?vals]
  have c: "[''p0'', ''old'', ''1 GB''] \<notin> set (orderedMovies ?fresh ?vals)"
    by (rule contra_subsetD)
  have "[''p0'', ''new'', ''1 GB'', ''p0'', [], [], []] \<in> set (oldMovies ?fresh ?vals)"
    by code_simp
  then have d: "[''p0'', ''new'', ''1 GB'', ''p0'', [], [], []] \<in> set (orderedMovies ?fresh ?vals)"
    unfolding orderedMovies_def set_append by (rule UnI2)
  from a b c d show ?thesis by (intro conjI)
qed

lemma count_list_keys_filter:
  assumes "P k"
  shows "count_list (map f (filter (\<lambda>m. P (f m)) xs)) k = count_list (map f xs) k"
  using assms by (induction xs) auto

lemma count_list_oldMovies:
  assumes "k \<in> set (existingMovies values)"
  shows "count_list (map row_key (oldMovies fresh values)) k = count_list (map row_key fresh) k"
  unfolding oldMovies_def
  by (rule count_list_keys_filter [where P = "\<lambda>k. k \<in> set (existingMovies values)", OF assms])

lemma keys_admitted_new:
  "set (map row_key (take 10 (newMovies fresh values)))
     \<subseteq> set (map row_key fresh) - set (existingMovies values)"
  using set_take_subset [of 10 "map row_key (newMovies fresh values)"]
  unfolding take_map keys_newMovies .

text \<open>
  C3 (as the code has it). When the fresh records have pairwise different titles, so
  have the rows written, whatever the sheet held before. The code removes no repeat
  from the fresh list: the rows written have a repeated title exactly when the first 10
  new fresh records have one or the already-known fresh records have one, and a title
  that is in the sheet is written as many times as the fresh list holds it.
\<close>

theorem distinct_fresh_keys_give_distinct_rows:
  "(distinct (map row_key fresh) \<longrightarrow> distinct (map row_key (orderedMovies fresh values)))
   \<and> (distinct (map row_key (orderedMovies fresh values)) \<longleftrightarrow>
        distinct (map row_key (take 10 (newMovies fresh values)))
        \<and> distinct (map row_key (oldMovies fresh values)))
   \<and> (\<forall>k \<in> set (existingMovies values).
         count_list (map row_key (orderedMovies fresh values)) k
           = count_list (map row_key fresh) k)"
proof (intro conjI impI ballI)
  have d: "set (map row_key (take 10 (newMovies fresh values)))
          \<inter> set (map row_key (oldMovies fresh values)) = {}"
    using keys_admitted_new [of fresh "values"] unfolding keys_oldMovies by blast
  show s: "distinct (map row_key (orderedMovies fresh values)) \<longleftrightarrow>
        distinct (map row_key (take 10 (newMovies fresh values)))
        \<and> distinct (map row_key (oldMovies fresh values))"
    unfolding orderedMovies_def map_append distinct_append using d by simp
  assume a: "distinct (map row_key fresh)"
  have n: "distinct (map row_key (take 10 (newMovies fresh values)))"
    unfolding take_map [symmetric] newMovies_def
    by (rule distinct_take [OF distinct_map_filter [OF a]])
  have o: "distinct (map row_key (oldMovies fresh values))"
    unfolding oldMovies_def by (rule distinct_map_filter [OF a])
  from n o show "distinct (map row_key (orderedMovies fresh values))"
    unfolding s by (rule conjI)
next
  fix k
  assume k: "k \<in> set (existingMovies values)"
  with keys_admitted_new [of fresh "values"]
  have "k \<notin> set (map row_key (take 10 (newMovies fresh values)))" by blast
  then have "count_list (map row_key (take 10 (newMovies fresh values))) k = 0"
    by (rule count_notin)
  with count_list_oldMovies [OF k, of fresh]
  show "count_list (map row_key (orderedMovies fresh values)) k = count_list (map row_key fresh) k"
    unfolding orderedMovies_def map_append count_list_append by simp
qed

theorem distinct_fresh_keys_give_distinct_rows_witness:
  "distinct (map row_key
     (orderedMovies [[''Heat.1995.mkv'', ''u2'', ''3 GB'', ''Heat'', ''1995'', [], []],
                     [''Alien.1979.mkv'', ''u9'', ''2 GB'', ''Alien'', ''1979'', [], []]]
        (Some [[''original-title'', ''url'', ''size''], [''Alien.1979.mkv'', ''u1'', ''2 GB'']])))
   \<and> count_list (map row_key
         (orderedMovies [[''Heat.1995.mkv'', ''u2'', ''3 GB'', ''Heat'', ''1995'', [], []],
                         [''Alien.1979.mkv'', ''u9'', ''2 GB'', ''Alien'', ''1979'', [], []]]
            (Some [[''original-title'', ''url'', ''size''], [''Alien.1979.mkv'', ''u1'', ''2 GB'']])))
         (Some ''Alien.1979.mkv'') = 1"
proof -
  let ?fresh = "[[''Heat.1995.mkv'', ''u2'', ''3 GB'', ''Heat'', ''1995'', [], []],
                 [''Alien.1979.mkv'', ''u9'', ''2 GB'', ''Alien'', ''1979'', [], []]]"
  let ?vals = "Some [[''original-title'', ''url'', ''size''], [''Alien.1979.mkv'', ''u1'', ''2 GB'']]"
  note T = distinct_fresh_keys_give_distinct_rows [of ?fresh ?vals]
  have h: "distinct (map row_key ?fresh)" by code_simp
  have k: "Some ''Alien.1979.mkv'' \<in> set (existingMovies ?vals)" by code_simp
  have c: "count_list (map row_key ?fresh) (Some ''Alien.1979.mkv'') = 1" by code_simp
  from T have "distinct (map row_key ?fresh) \<longrightarrow> distinct (map row_key (orderedMovies ?fresh ?vals))"
    by (rule conjunct1)
  from mp [OF this h] have a: "distinct (map row_key (orderedMovies ?fresh ?vals))" .
  from T have "\<forall>k \<in> set (existingMovies ?vals).
         count_list (map row_key (orderedMovies ?fresh ?vals)) k
           = count_list (map row_key ?fresh) k"
    by (elim conjE)
  from bspec [OF this k] have b: "count_list (map row_key (orderedMovies ?fresh ?vals))
         (Some ''Alien.1979.mkv'') = 1"
    unfolding c .
  from a b show ?thesis by (rule conjI)
qed

text \<open>
  C3 (as the specification states it). A title that the page lists twice is written
  twice: the sheet is empty, the fresh list holds the same record two times, and the
  rows written have two equal keys.
\<close>

theorem repeated_fresh_title_counterexample:
  "processMovies (extract_movies
      [\<lparr> countitems_text = Inr ''Alien.1979.mkv'', input_value = Inr ''u1'', badge_text = Inr ''2 GB'' \<rparr>,
       \<lparr> countitems_text = Inr ''Alien.1979.mkv'', input_value = Inr ''u1'', badge_text = Inr ''2 GB'' \<rparr>])
     = Inr [[''Alien.1979.mkv'', ''u1'', ''2 GB'', ''Alien'', ''1979'', [], []],
            [''Alien.1979.mkv'', ''u1'', ''2 GB'', ''Alien'', ''1979'', [], []]]
   \<and> \<not> distinct (map row_key
         (orderedMovies [[''Alien.1979.mkv'', ''u1'', ''2 GB'', ''Alien'', ''1979'', [], []],
                         [''Alien.1979.mkv'', ''u1'', ''2 GB'', ''Alien'', ''1979'', [], []]]
            None))"
  by code_simp

section \<open>Termination of the scroll loop\<close>

text \<open>A count that stops growing is constant from some reading on.\<close>

lemma antitone_from:
  assumes "\<forall>n\<ge>N. obs (Suc n) \<le> obs n" and "N \<le> n"
  shows "obs n \<le> (obs N :: nat)"
  using assms(2)
proof (induction n)
  case 0
  then show ?case by simp
next
  case (Suc n)
  show ?case
  proof (cases "N \<le> n")
    case True
    with assms(1) have "obs (Suc n) \<le> obs n" by simp
    with Suc.IH [OF True] show ?thesis by simp
  next
    case False
    with Suc.prems have "Suc n = N" by simp
    then show ?thesis by simp
  qed
qed

lemma eventually_constant:
  assumes "\<forall>n\<ge>N. obs (Suc n) \<le> (obs n :: nat)"
  shows "\<exists>M. \<forall>n\<ge>M. obs n = obs M"
  using assms
proof (induction "obs N" arbitrary: N rule: less_induct)
  case less
  show ?case
  proof (cases "\<forall>n\<ge>N. obs n = obs N")
    case True
    then show ?thesis by blast
  next
    case False
    then obtain n where n: "N \<le> n" "obs n \<noteq> obs N" by blast
    with antitone_from [OF less.prems, of n] have lt: "obs n < obs N" by simp
    from less.prems n(1) have "\<forall>k\<ge>n. obs (Suc k) \<le> obs k" by simp
    from less.hyps [OF lt this] show ?thesis .
  qed
qed

text \<open>The loop on counts that are read and scrolls that succeed.\<close>

lemma scroll_loop_step:
  "scroll_loop (\<lambda>i. Inr (obs i)) (\<lambda>i. None) i prev nc =
     (if nc < 5 then
        (if 5 \<le> (if obs i = prev then nc + 1 else 0)
         then Some (Inr (i + 1, obs i, if obs i = prev then nc + 1 else 0))
         else scroll_loop (\<lambda>i. Inr (obs i)) (\<lambda>i. None) (i + 1) (obs i)
                (if obs i = prev then nc + 1 else 0))
      else Some (Inr (i, prev, nc)))"
  by (subst scroll_loop.simps) simp

lemma noChangeStreak_ge_iff:
  "k \<le> noChangeStreak obs n \<longleftrightarrow>
     k \<le> n \<and> (\<forall>i. n - k \<le> i \<and> i < n \<longrightarrow> obs i = count_before obs i)"
proof (induction n arbitrary: k)
  case 0
  then show ?case by simp
next
  case (Suc n)
  show ?case
  proof (cases k)
    case 0
    then show ?thesis by simp
  next
    case (Suc k')
    show ?thesis
    proof (cases "obs n = count_before obs n")
      case True
      have "(\<forall>i. n - k' \<le> i \<and> i < Suc n \<longrightarrow> obs i = count_before obs i)
              \<longleftrightarrow> (\<forall>i. n - k' \<le> i \<and> i < n \<longrightarrow> obs i = count_before obs i)"
        using True by (auto simp: less_Suc_eq)
      with True Suc.IH [of k'] show ?thesis by (simp add: Suc)
    next
      case False
      then have "\<not> (\<forall>i. Suc n - k \<le> i \<and> i < Suc n \<longrightarrow> obs i = count_before obs i)"
        using Suc by (intro notI) (auto dest: spec [of _ n])
      with False show ?thesis by (simp add: Suc)
    qed
  qed
qed

lemma five_unchanged_iff: "five_unchanged obs n \<longleftrightarrow> 5 \<le> noChangeStreak obs n"
  unfolding noChangeStreak_ge_iff five_unchanged_def by auto

lemma scroll_loop_reaches:
  assumes const: "\<forall>n\<ge>M. obs n = obs M"
    and "nc = noChangeStreak obs i" and "prev = count_before obs i"
    and "\<forall>m\<le>i. noChangeStreak obs m < 5"
  shows "\<exists>n. i < n
            \<and> scroll_loop (\<lambda>i. Inr (obs i)) (\<lambda>i. None) i prev nc
                = Some (Inr (n, count_before obs n, 5))
            \<and> noChangeStreak obs n = 5 \<and> (\<forall>m<n. noChangeStreak obs m < 5)"
  using assms(2-)
proof (induction "5 * (Suc M - i) + (5 - nc)" arbitrary: i nc prev rule: less_induct)
  case less
  let ?nc' = "if obs i = prev then nc + 1 else 0"
  from less.prems have nc: "nc < 5" by simp
  have s: "noChangeStreak obs (Suc i) = ?nc'"
    using less.prems by simp
  have p: "obs i = count_before obs (Suc i)"
    by (simp add: count_before_def)
  show ?case
  proof (cases "5 \<le> ?nc'")
    case True
    with nc have five: "?nc' = 5" by (simp split: if_splits)
    have "scroll_loop (\<lambda>i. Inr (obs i)) (\<lambda>i. None) i prev nc
            = Some (Inr (Suc i, count_before obs (Suc i), 5))"
      using True nc five by (subst scroll_loop_step) (simp add: p [symmetric])
    moreover have "noChangeStreak obs (Suc i) = 5" using s five by simp
    moreover have "\<forall>m<Suc i. noChangeStreak obs m < 5" using less.prems(3) by simp
    ultimately show ?thesis by blast
  next
    case False
    then have lt: "?nc' < 5" by simp
    have all: "\<forall>m\<le>Suc i. noChangeStreak obs m < 5"
    proof (intro allI impI)
      fix m assume "m \<le> Suc i"
      then consider "m \<le> i" | "m = Suc i" by linarith
      then show "noChangeStreak obs m < 5"
      proof cases
        case 1
        with less.prems(3) show ?thesis by simp
      next
        case 2
        with s lt show ?thesis by simp
      qed
    qed
    have dec: "5 * (Suc M - Suc i) + (5 - ?nc') < 5 * (Suc M - i) + (5 - nc)"
    proof (cases "i \<le> M")
      case True
      with nc have "5 * (Suc M - Suc i) + (5 - x) < 5 * (Suc M - i) + (5 - nc)" for x
        by arith
      then show ?thesis .
    next
      case False
      then obtain j where j: "i = Suc j" "M \<le> j" "M \<le> i"
        by (cases i) simp_all
      from j const [rule_format, of i] const [rule_format, of j]
      have "obs i = obs M" "obs j = obs M" by blast+
      moreover from j have "count_before obs i = obs j"
        by (simp add: count_before_def)
      ultimately have "obs i = prev" using less.prems(2) by simp
      then have e: "?nc' = nc + 1" by simp
      from nc False show ?thesis unfolding e by arith
    qed
    from less.hyps [OF dec s [symmetric] p all]
    obtain n where n: "Suc i < n"
      "scroll_loop (\<lambda>i. Inr (obs i)) (\<lambda>i. None) (Suc i) (obs i) ?nc'
         = Some (Inr (n, count_before obs n, 5))"
      "noChangeStreak obs n = 5" "\<forall>m<n. noChangeStreak obs m < 5"
      by blast
    have "scroll_loop (\<lambda>i. Inr (obs i)) (\<lambda>i. None) i prev nc
            = Some (Inr (n, count_before obs n, 5))"
      using False nc n(2) by (subst scroll_loop_step) simp
    with n show ?thesis by (intro exI [of _ n]) simp
  qed
qed

text \<open>
  C6. Whenever the count stops growing from some reading on, the loop returns after
  finitely many cycles, with a streak of 5; and the number \<open>n\<close> of cycles it has run
  is the first at which the last five cycles all read an unchanged count.
\<close>

theorem scroll_loop_terminates:
  assumes "\<exists>N. \<forall>n\<ge>N. obs (Suc n) \<le> obs n"
  shows "\<exists>n. scroll_loop (\<lambda>i. Inr (obs i)) (\<lambda>i. None) 0 0 0
               = Some (Inr (n, count_before obs n, 5))
            \<and> five_unchanged obs n \<and> (\<forall>m<n. \<not> five_unchanged obs m)"
proof -
  from assms obtain N where "\<forall>n\<ge>N. obs (Suc n) \<le> obs n" ..
  from eventually_constant [OF this] obtain M where const: "\<forall>n\<ge>M. obs n = obs M" ..
  have "\<exists>n. 0 < n
            \<and> scroll_loop (\<lambda>i. Inr (obs i)) (\<lambda>i. None) 0 0 0
                = Some (Inr (n, count_before obs n, 5))
            \<and> noChangeStreak obs n = 5 \<and> (\<forall>m<n. noChangeStreak obs m < 5)"
    by (rule scroll_loop_reaches [OF const]) (simp_all add: count_before_def)
  then obtain n where
    "scroll_loop (\<lambda>i. Inr (obs i)) (\<lambda>i. None) 0 0 0 = Some (Inr (n, count_before obs n, 5))"
    "noChangeStreak obs n = 5" "\<forall>m<n. noChangeStreak obs m < 5"
    by blast
  then have "scroll_loop (\<lambda>i. Inr (obs i)) (\<lambda>i. None) 0 0 0
               = Some (Inr (n, count_before obs n, 5))
            \<and> five_unchanged obs n \<and> (\<forall>m<n. \<not> five_unchanged obs m)"
    unfolding five_unchanged_iff by auto
  then show ?thesis ..
qed

theorem scroll_loop_terminates_witness:
  "scroll_loop (\<lambda>i. Inr (min i 3)) (\<lambda>i. None) 0 0 0 = Some (Inr (9, 3, 5))
   \<and> five_unchanged (\<lambda>i. min i 3) 9 \<and> \<not> five_unchanged (\<lambda>i. min i 3) 8"
proof -
  have "\<exists>N. \<forall>n\<ge>N. min (Suc n) 3 \<le> min n (3::nat)"
    by (rule exI [of _ 3]) simp
  from scroll_loop_terminates [of "\<lambda>i. min i 3", OF this]
  obtain n where n: "scroll_loop (\<lambda>i. Inr (min i 3)) (\<lambda>i. None) 0 0 0
               = Some (Inr (n, count_before (\<lambda>i. min i 3) n, 5))"
    and f: "five_unchanged (\<lambda>i. min i 3) n" and l: "\<forall>m<n. \<not> five_unchanged (\<lambda>i. min i 3) m"
    by blast
  have e: "scroll_loop (\<lambda>i. Inr (min i 3)) (\<lambda>i. None) 0 0 0 = Some (Inr (9, 3, 5))"
    by (simp add: scroll_loop.simps)
  from n e have "n = 9" by simp
  with f l e show ?thesis by simp
qed

section \<open>Faults of the stages\<close>

lemma crawlAndUpdate_caught:
  assumes "try_block w = Some (Some e, made)"
  shows "crawlAndUpdate w = Some (caught_run w made e)"
  using assms by (simp add: crawlAndUpdate_def)

lemma updateSheet_fault:
  assumes "updateSheet w processedMovies = (Some e, made)"
  shows "\<forall>rows. SheetUpdate rows None \<notin> set made"
proof (cases "sheet_values w")
  case (Inl a)
  with assms show ?thesis by (auto simp: updateSheet_def)
next
  case (Inr v)
  show ?thesis
  proof (cases "clear_sheet w")
    case None
    with assms Inr show ?thesis by (auto simp: updateSheet_def)
  next
    case (Some a)
    with assms Inr show ?thesis by (auto simp: updateSheet_def)
  qed
qed

lemma try_block_fault:
  assumes "try_block w = Some (Some e, made)"
  shows "made = [] \<or> (\<exists>processedMovies. updateSheet w processedMovies = (Some e, made))"
  using assms unfolding try_block_def
  by (simp split: option.splits sum.splits) metis

lemma try_block_reaches_updateSheet:
  assumes "navigate w = None"
    and "scroll_loop (count_items w) (scroll_down w) 0 0 0 = Some (Inr s)"
    and "query_items w = Inr divs" and "get_client w = None"
  shows "\<exists>rows. processMovies (extract_movies divs) = Inr rows
           \<and> try_block w = Some (updateSheet w rows)"
proof -
  from processMovies_extract_movies [of divs]
  obtain rows where r: "processMovies (extract_movies divs) = Inr rows" ..
  have "try_block w = Some (updateSheet w rows)"
    unfolding try_block_def by (simp add: assms r)
  with r show ?thesis by blast
qed

text \<open>The stages before the storage stage: a fault of one of them is caught, with no call to the sheet made.\<close>

lemma navigate_fault_caught:
  assumes "navigate w = Some e"
  shows "crawlAndUpdate w = Some (caught_run w [] e)"
  by (rule crawlAndUpdate_caught) (simp add: try_block_def assms)

lemma scroll_fault_caught:
  assumes "navigate w = None"
    and "scroll_loop (count_items w) (scroll_down w) 0 0 0 = Some (Inl e)"
  shows "crawlAndUpdate w = Some (caught_run w [] e)"
  by (rule crawlAndUpdate_caught) (simp add: try_block_def assms)

lemma query_fault_caught:
  assumes "navigate w = None"
    and "scroll_loop (count_items w) (scroll_down w) 0 0 0 = Some (Inr s)"
    and "query_items w = Inl e"
  shows "crawlAndUpdate w = Some (caught_run w [] e)"
  by (rule crawlAndUpdate_caught) (simp add: try_block_def assms)

lemma authorize_fault_caught:
  assumes "navigate w = None"
    and "scroll_loop (count_items w) (scroll_down w) 0 0 0 = Some (Inr s)"
    and "query_items w = Inr divs" and "get_client w = Some e"
  shows "crawlAndUpdate w = Some (caught_run w [] e)"
  by (rule crawlAndUpdate_caught) (simp add: try_block_def assms)

text \<open>The storage stage, reached with the rows of the extracted items, whatever their reads gave.\<close>

lemma storage_stage_runs:
  assumes "navigate w = None"
    and "scroll_loop (count_items w) (scroll_down w) 0 0 0 = Some (Inr s)"
    and "query_items w = Inr divs" and "get_client w = None"
  shows "\<exists>rows. processMovies (extract_movies divs) = Inr rows
     \<and> (sheet_values w = Inl e \<longrightarrow>
          crawlAndUpdate w = Some (caught_run w [SheetGet (Some e)] e))
     \<and> (sheet_values w = Inr sheet \<longrightarrow>
          (clear_sheet w = Some e \<longrightarrow>
             crawlAndUpdate w = Some (caught_run w [SheetGet None, SheetClear (Some e)] e))
          \<and> (clear_sheet w = None \<longrightarrow>
               (update_sheet w = Some e \<longrightarrow>
                  crawlAndUpdate w =
                    Some (caught_run w
                           [SheetGet None, SheetClear None,
                            SheetUpdate (headers @ orderedMovies rows sheet) (Some e)] e))
               \<and> (update_sheet w = None \<longrightarrow>
                    crawlAndUpdate w =
                      Some \<lparr> effects =
                               [SheetGet None, SheetClear None,
                                SheetUpdate (headers @ orderedMovies rows sheet) None,
                                BrowserClose (close_browser w)],
                             outcome = close_browser w \<rparr>)))"
proof -
  from try_block_reaches_updateSheet [OF assms]
  obtain rows where r: "processMovies (extract_movies divs) = Inr rows"
    and t: "try_block w = Some (updateSheet w rows)" by blast
  have a: "sheet_values w = Inl e \<longrightarrow>
          crawlAndUpdate w = Some (caught_run w [SheetGet (Some e)] e)"
    by (simp add: crawlAndUpdate_def t updateSheet_def)
  have b: "sheet_values w = Inr sheet \<longrightarrow>
          (clear_sheet w = Some e \<longrightarrow>
             crawlAndUpdate w = Some (caught_run w [SheetGet None, SheetClear (Some e)] e))
          \<and> (clear_sheet w = None \<longrightarrow>
               (update_sheet w = Some e \<longrightarrow>
                  crawlAndUpdate w =
                    Some (caught_run w
                           [SheetGet None, SheetClear None,
                            SheetUpdate (headers @ orderedMovies rows sheet) (Some e)] e))
               \<and> (update_sheet w = None \<longrightarrow>
                    crawlAndUpdate w =
                      Some \<lparr> effects =
                               [SheetGet None, SheetClear None,
                                SheetUpdate (headers @ orderedMovies rows sheet) None,
                                BrowserClose (close_browser w)],
                             outcome = close_browser w \<rparr>))"
    by (simp add: crawlAndUpdate_def t updateSheet_def)
  from r a b show ?thesis by (intro exI [of _ rows] conjI)
qed

text \<open>
  C5 (as the code has it). A fault of the navigation, the scroll, the extraction
  (\<open>page.$$\<close>) or the authorization stage is caught: the \<open>catch\<close> block logs it and
  does not raise it again, the \<open>finally\<close> block calls \<open>browser.close()\<close> last, and no
  call to the sheet has been made. Once the client is obtained the storage stage is
  reached with rows for the extracted items, whatever the reads of single items gave:
  those faults never leave the extraction loop. A fault of the storage stage is caught
  in the same way: of the read, with nothing cleared or written; of the clear, with
  nothing written; of the update, with the sheet already cleared and no update
  completed. In every case the run ends as \<open>browser.close()\<close> ends, with code 0 when
  the browser closes; and whenever an error leaves the \<open>try\<close> block no update of the
  sheet has completed.
\<close>

theorem stage_fault_logged_and_swallowed:
  "(navigate w = Some e \<longrightarrow> crawlAndUpdate w = Some (caught_run w [] e))
   \<and> (navigate w = None \<longrightarrow>
        (scroll_loop (count_items w) (scroll_down w) 0 0 0 = Some (Inl e) \<longrightarrow>
           crawlAndUpdate w = Some (caught_run w [] e))
        \<and> (scroll_loop (count_items w) (scroll_down w) 0 0 0 = Some (Inr s) \<longrightarrow>
             (query_items w = Inl e \<longrightarrow> crawlAndUpdate w = Some (caught_run w [] e))
             \<and> (query_items w = Inr divs \<longrightarrow>
                  (get_client w = Some e \<longrightarrow> crawlAndUpdate w = Some (caught_run w [] e))
                  \<and> (get_client w = None \<longrightarrow>
                       (\<exists>rows. processMovies (extract_movies divs) = Inr rows
                          \<and> (sheet_values w = Inl e \<longrightarrow>
                               crawlAndUpdate w = Some (caught_run w [SheetGet (Some e)] e))
                          \<and> (sheet_values w = Inr sheet \<longrightarrow>
                               (clear_sheet w = Some e \<longrightarrow>
                                  crawlAndUpdate w =
                                    Some (caught_run w [SheetGet None, SheetClear (Some e)] e))
                               \<and> (clear_sheet w = None \<longrightarrow>
                                    (update_sheet w = Some e \<longrightarrow>
                                       crawlAndUpdate w =
                                         Some (caught_run w
                                                [SheetGet None, SheetClear None,
                                                 SheetUpdate (headers @ orderedMovies rows sheet)
                                                   (Some e)] e))
                                    \<and> (update_sheet w = None \<longrightarrow>
                                         crawlAndUpdate w =
                                           Some \<lparr> effects =
                                                    [SheetGet None, SheetClear None,
                                                     SheetUpdate (headers @ orderedMovies rows sheet)
                                                       None,
                                                     BrowserClose (close_browser w)],
                                                  outcome = close_browser w \<rparr>))))))))
   \<and> (close_browser w = None \<longrightarrow> exit_code (caught_run w made e) = 0)
   \<and> (try_block w = Some (Some e, made) \<longrightarrow>
        crawlAndUpdate w = Some (caught_run w made e)
        \<and> (\<forall>rows. SheetUpdate rows None \<notin> set made))"
proof (intro conjI)
  show "navigate w = Some e \<longrightarrow> crawlAndUpdate w = Some (caught_run w [] e)"
    using navigate_fault_caught by (rule impI)
next
  show "navigate w = None \<longrightarrow>
        (scroll_loop (count_items w) (scroll_down w) 0 0 0 = Some (Inl e) \<longrightarrow>
           crawlAndUpdate w = Some (caught_run w [] e))
        \<and> (scroll_loop (count_items w) (scroll_down w) 0 0 0 = Some (Inr s) \<longrightarrow>
             (query_items w = Inl e \<longrightarrow> crawlAndUpdate w = Some (caught_run w [] e))
             \<and> (query_items w = Inr divs \<longrightarrow>
                  (get_client w = Some e \<longrightarrow> crawlAndUpdate w = Some (caught_run w [] e))
                  \<and> (get_client w = None \<longrightarrow>
                       (\<exists>rows. processMovies (extract_movies divs) = Inr rows
                          \<and> (sheet_values w = Inl e \<longrightarrow>
                               crawlAndUpdate w = Some (caught_run w [SheetGet (Some e)] e))
                          \<and> (sheet_values w = Inr sheet \<longrightarrow>
                               (clear_sheet w = Some e \<longrightarrow>
                                  crawlAndUpdate w =
                                    Some (caught_run w [SheetGet None, SheetClear (Some e)] e))
                               \<and> (clear_sheet w = None \<longrightarrow>
                                    (update_sheet w = Some e \<longrightarrow>
                                       crawlAndUpdate w =
                                         Some (caught_run w
                                                [SheetGet None, SheetClear None,
                                                 SheetUpdate (headers @ orderedMovies rows sheet)
                                                   (Some e)] e))
                                    \<and> (update_sheet w = None \<longrightarrow>
                                         crawlAndUpdate w =
                                           Some \<lparr> effects =
                                                    [SheetGet None, SheetClear None,
                                                     SheetUpdate (headers @ orderedMovies rows sheet)
                                                       None,
                                                     BrowserClose (close_browser w)],
                                                  outcome = close_browser w \<rparr>)))))))"
  proof (rule impI, rule conjI)
    assume n: "navigate w = None"
    show "scroll_loop (count_items w) (scroll_down w) 0 0 0 = Some (Inl e) \<longrightarrow>
           crawlAndUpdate w = Some (caught_run w [] e)"
      using scroll_fault_caught [OF n] by (rule impI)
    show "scroll_loop (count_items w) (scroll_down w) 0 0 0 = Some (Inr s) \<longrightarrow>
             (query_items w = Inl e \<longrightarrow> crawlAndUpdate w = Some (caught_run w [] e))
             \<and> (query_items w = Inr divs \<longrightarrow>
                  (get_client w = Some e \<longrightarrow> crawlAndUpdate w = Some (caught_run w [] e))
                  \<and> (get_client w = None \<longrightarrow>
                       (\<exists>rows. processMovies (extract_movies divs) = Inr rows
                          \<and> (sheet_values w = Inl e \<longrightarrow>
                               crawlAndUpdate w = Some (caught_run w [SheetGet (Some e)] e))
                          \<and> (sheet_values w = Inr sheet \<longrightarrow>
                               (clear_sheet w = Some e \<longrightarrow>
                                  crawlAndUpdate w =
                                    Some (caught_run w [SheetGet None, SheetClear (Some e)] e))
                               \<and> (clear_sheet w = None \<longrightarrow>
                                    (update_sheet w = Some e \<longrightarrow>
                                       crawlAndUpdate w =
                                         Some (caught_run w
                                                [SheetGet None, SheetClear None,
                                                 SheetUpdate (headers @ orderedMovies rows sheet)
                                                   (Some e)] e))
                                    \<and> (update_sheet w = None \<longrightarrow>
                                         crawlAndUpdate w =
                                           Some \<lparr> effects =
                                                    [SheetGet None, SheetClear None,
                                                     SheetUpdate (headers @ orderedMovies rows sheet)
                                                       None,
                                                     BrowserClose (close_browser w)],
                                                  outcome = close_browser w \<rparr>))))))"
    proof (rule impI, rule conjI)
      assume sc: "scroll_loop (count_items w) (scroll_down w) 0 0 0 = Some (Inr s)"
      show "query_items w = Inl e \<longrightarrow> crawlAndUpdate w = Some (caught_run w [] e)"
        using query_fault_caught [OF n sc] by (rule impI)
      show "query_items w = Inr divs \<longrightarrow>
                  (get_client w = Some e \<longrightarrow> crawlAndUpdate w = Some (caught_run w [] e))
                  \<and> (get_client w = None \<longrightarrow>
                       (\<exists>rows. processMovies (extract_movies divs) = Inr rows
                          \<and> (sheet_values w = Inl e \<longrightarrow>
                               crawlAndUpdate w = Some (caught_run w [SheetGet (Some e)] e))
                          \<and> (sheet_values w = Inr sheet \<longrightarrow>
                               (clear_sheet w = Some e \<longrightarrow>
                                  crawlAndUpdate w =
                                    Some (caught_run w [SheetGet None, SheetClear (Some e)] e))
                               \<and> (clear_sheet w = None \<longrightarrow>
                                    (update_sheet w = Some e \<longrightarrow>
                                       crawlAndUpdate w =
                                         Some (caught_run w
                                                [SheetGet None, SheetClear None,
                                                 SheetUpdate (headers @ orderedMovies rows sheet)
                                                   (Some e)] e))
                                    \<and> (update_sheet w = None \<longrightarrow>
                                         crawlAndUpdate w =
                                           Some \<lparr> effects =
                                                    [SheetGet None, SheetClear None,
                                                     SheetUpdate (headers @ orderedMovies rows sheet)
                                                       None,
                                                     BrowserClose (close_browser w)],
                                                  outcome = close_browser w \<rparr>)))))"
      proof (rule impI, rule conjI)
        assume q: "query_items w = Inr divs"
        show "get_client w = Some e \<longrightarrow> crawlAndUpdate w = Some (caught_run w [] e)"
          using authorize_fault_caught [OF n sc q] by (rule impI)
        show "get_client w = None \<longrightarrow>
                       (\<exists>rows. processMovies (extract_movies divs) = Inr rows
                          \<and> (sheet_values w = Inl e \<longrightarrow>
                               crawlAndUpdate w = Some (caught_run w [SheetGet (Some e)] e))
                          \<and> (sheet_values w = Inr sheet \<longrightarrow>
                               (clear_sheet w = Some e \<longrightarrow>
                                  crawlAndUpdate w =
                                    Some (caught_run w [SheetGet None, SheetClear (Some e)] e))
                               \<and> (clear_sheet w = None \<longrightarrow>
                                    (update_sheet w = Some e \<longrightarrow>
                                       crawlAndUpdate w =
                                         Some (caught_run w
                                                [SheetGet None, SheetClear None,
                                                 SheetUpdate (headers @ orderedMovies rows sheet)
                                                   (Some e)] e))
                                    \<and> (update_sheet w = None \<longrightarrow>
                                         crawlAndUpdate w =
                                           Some \<lparr> effects =
                                                    [SheetGet None, SheetClear None,
                                                     SheetUpdate (headers @ orderedMovies rows sheet)
                                                       None,
                                                     BrowserClose (close_browser w)],
                                                  outcome = close_browser w \<rparr>))))"
          using storage_stage_runs [OF n sc q] by (rule impI)
      qed
    qed
  qed
next
  show "close_browser w = None \<longrightarrow> exit_code (caught_run w made e) = 0"
    by (simp add: exit_code_def)
next
  show "try_block w = Some (Some e, made) \<longrightarrow>
        crawlAndUpdate w = Some (caught_run w made e)
        \<and> (\<forall>rows. SheetUpdate rows None \<notin> set made)"
  proof (rule impI, rule conjI)
    assume t: "try_block w = Some (Some e, made)"
    show "crawlAndUpdate w = Some (caught_run w made e)"
      using t by (rule crawlAndUpdate_caught)
    from try_block_fault [OF t] show "\<forall>rows. SheetUpdate rows None \<notin> set made"
      using updateSheet_fault by fastforce
  qed
qed

lemma scroll_loop_three: "scroll_loop (\<lambda>i. Inr 3) (\<lambda>i. None) 0 0 0 = Some (Inr (6, 3, 5))"
  by (simp add: scroll_loop.simps)

theorem stage_fault_logged_and_swallowed_witness:
  "crawlAndUpdate
     \<lparr> navigate = None, count_items = (\<lambda>i. Inr 3), scroll_down = (\<lambda>i. None),
       query_items = Inr [\<lparr> countitems_text = Inr ''Alien.1979.mkv'', input_value = Inr ''u1'',
                            badge_text = Inr ''2 GB'' \<rparr>,
                          \<lparr> countitems_text = Inl (Fault ''no element''), input_value = Inr ''u2'',
                            badge_text = Inr ''1 GB'' \<rparr>],
       get_client = Some (Fault ''invalid_grant''), sheet_values = Inr None, clear_sheet = None,
       update_sheet = None, close_browser = None \<rparr>
   = Some \<lparr> effects = [LogError (Fault ''invalid_grant''), BrowserClose None], outcome = None \<rparr>"
proof -
  let ?divs = "[\<lparr> countitems_text = Inr ''Alien.1979.mkv'', input_value = Inr ''u1'',
                            badge_text = Inr ''2 GB'' \<rparr>,
                          \<lparr> countitems_text = Inl (Fault ''no element''), input_value = Inr ''u2'',
                            badge_text = Inr ''1 GB'' \<rparr>]"
  let ?w = "\<lparr> navigate = None, count_items = (\<lambda>i. Inr 3), scroll_down = (\<lambda>i. None),
       query_items = Inr ?divs,
       get_client = Some (Fault ''invalid_grant''), sheet_values = Inr None, clear_sheet = None,
       update_sheet = None, close_browser = None \<rparr>"
  let ?e = "Fault ''invalid_grant''"
  have n: "navigate ?w = None" by simp
  have sc: "scroll_loop (count_items ?w) (scroll_down ?w) 0 0 0 = Some (Inr (6, 3, 5))"
    by (simp add: scroll_loop_three)
  have q: "query_items ?w = Inr ?divs" by simp
  have g: "get_client ?w = Some ?e" by simp
  note T = stage_fault_logged_and_swallowed [of ?w ?e "(6, 3, 5)" ?divs None "[]"]
  from T have 1: "navigate ?w = None \<longrightarrow>
        (scroll_loop (count_items ?w) (scroll_down ?w) 0 0 0 = Some (Inl ?e) \<longrightarrow>
           crawlAndUpdate ?w = Some (caught_run ?w [] ?e))
        \<and> (scroll_loop (count_items ?w) (scroll_down ?w) 0 0 0 = Some (Inr (6, 3, 5)) \<longrightarrow>
             (query_items ?w = Inl ?e \<longrightarrow> crawlAndUpdate ?w = Some (caught_run ?w [] ?e))
             \<and> (query_items ?w = Inr ?divs \<longrightarrow>
                  (get_client ?w = Some ?e \<longrightarrow> crawlAndUpdate ?w = Some (caught_run ?w [] ?e))
                  \<and> (get_client ?w = None \<longrightarrow>
                       (\<exists>rows. processMovies (extract_movies ?divs) = Inr rows
                          \<and> (sheet_values ?w = Inl ?e \<longrightarrow>
                               crawlAndUpdate ?w = Some (caught_run ?w [SheetGet (Some ?e)] ?e))
                          \<and> (sheet_values ?w = Inr None \<longrightarrow>
                               (clear_sheet ?w = Some ?e \<longrightarrow>
                                  crawlAndUpdate ?w =
                                    Some (caught_run ?w [SheetGet None, SheetClear (Some ?e)] ?e))
                               \<and> (clear_sheet ?w = None \<longrightarrow>
                                    (update_sheet ?w = Some ?e \<longrightarrow>
                                       crawlAndUpdate ?w =
                                         Some (caught_run ?w
                                                [SheetGet None, SheetClear None,
                                                 SheetUpdate (headers @ orderedMovies rows None)
                                                   (Some ?e)] ?e))
                                    \<and> (update_sheet ?w = None \<longrightarrow>
                                         crawlAndUpdate ?w =
                                           Some \<lparr> effects =
                                                    [SheetGet None, SheetClear None,
                                                     SheetUpdate (headers @ orderedMovies rows None)
                                                       None,
                                                     BrowserClose (close_browser ?w)],
                                                  outcome = close_browser ?w \<rparr>)))))))"
    by (elim conjE)
  from conjunct1 [OF mp [OF conjunct2 [OF mp [OF conjunct2 [OF mp [OF 1 n]] sc]] q]]
  have "get_client ?w = Some ?e \<longrightarrow> crawlAndUpdate ?w = Some (caught_run ?w [] ?e)" .
  from mp [OF this g] have "crawlAndUpdate ?w = Some (caught_run ?w [] ?e)" .
  then show ?thesis by (simp only: world.select_convs append_Nil)
qed

text \<open>
  C5 (as the specification states it). The update of the sheet raises after the clear
  has returned: the error is logged and the browser is closed, but the sheet has been
  cleared of the record it held, and the promise of the run is fulfilled, so that the
  program ends with code 0, not with a non-zero outcome.
\<close>

theorem stage_fault_outcome_counterexample:
  "crawlAndUpdate
     \<lparr> navigate = None, count_items = (\<lambda>i. Inr 3), scroll_down = (\<lambda>i. None),
       query_items = Inr [\<lparr> countitems_text = Inr ''Heat.1995.mkv'', input_value = Inr ''u2'',
                            badge_text = Inr ''3 GB'' \<rparr>],
       get_client = None,
       sheet_values = Inr (Some [[''original-title'', ''url'', ''size''],
                                 [''Alien.1979.mkv'', ''u1'', ''2 GB'']]),
       clear_sheet = None, update_sheet = Some (Fault ''quota exceeded''),
       close_browser = None \<rparr>
     = Some \<lparr> effects =
                [SheetGet None, SheetClear None,
                 SheetUpdate (headers @ [[''Heat.1995.mkv'', ''u2'', ''3 GB'', ''Heat'', ''1995'', [], []]])
                   (Some (Fault ''quota exceeded'')),
                 LogError (Fault ''quota exceeded''), BrowserClose None],
              outcome = None \<rparr>
   \<and> exit_code
       \<lparr> effects =
           [SheetGet None, SheetClear None,
            SheetUpdate (headers @ [[''Heat.1995.mkv'', ''u2'', ''3 GB'', ''Heat'', ''1995'', [], []]])
              (Some (Fault ''quota exceeded'')),
            LogError (Fault ''quota exceeded''), BrowserClose None],
         outcome = None \<rparr> = 0"
proof -
  let ?divs = "[\<lparr> countitems_text = Inr ''Heat.1995.mkv'', input_value = Inr ''u2'',
                  badge_text = Inr ''3 GB'' \<rparr>]"
  let ?sheet = "Some [[''original-title'', ''url'', ''size''], [''Alien.1979.mkv'', ''u1'', ''2 GB'']]"
  let ?w = "\<lparr> navigate = None, count_items = (\<lambda>i. Inr 3), scroll_down = (\<lambda>i. None),
       query_items = Inr ?divs, get_client = None, sheet_values = Inr ?sheet,
       clear_sheet = None, update_sheet = Some (Fault ''quota exceeded''),
       close_browser = None \<rparr>"
  let ?row = "[''Heat.1995.mkv'', ''u2'', ''3 GB'', ''Heat'', ''1995'', [], []]"
  have p: "processMovies (extract_movies ?divs) = Inr [?row]" by code_simp
  have o: "orderedMovies [?row] ?sheet = [?row]" by code_simp
  have sc: "scroll_loop (count_items ?w) (scroll_down ?w) 0 0 0 = Some (Inr (6, 3, 5))"
    by (simp add: scroll_loop_three)
  from try_block_reaches_updateSheet [of ?w "(6, 3, 5)" ?divs, OF _ sc]
  obtain rows where r: "processMovies (extract_movies ?divs) = Inr rows"
    and b: "try_block ?w = Some (updateSheet ?w rows)"
    by (simp only: world.select_convs) blast
  from r have rows: "rows = [?row]" unfolding p by simp
  have t: "try_block ?w = Some (Some (Fault ''quota exceeded''),
             [SheetGet None, SheetClear None,
              SheetUpdate (headers @ [?row]) (Some (Fault ''quota exceeded''))])"
    unfolding b rows by (simp add: updateSheet_def o)
  have c: "crawlAndUpdate ?w
     = Some \<lparr> effects =
                [SheetGet None, SheetClear None,
                 SheetUpdate (headers @ [?row]) (Some (Fault ''quota exceeded'')),
                 LogError (Fault ''quota exceeded''), BrowserClose None],
              outcome = None \<rparr>"
    by (simp add: crawlAndUpdate_def t)
  have x: "exit_code
       \<lparr> effects =
           [SheetGet None, SheetClear None,
            SheetUpdate (headers @ [?row]) (Some (Fault ''quota exceeded'')),
            LogError (Fault ''quota exceeded''), BrowserClose None],
         outcome = None \<rparr> = 0"
    by (simp add: exit_code_def)
  from c x show ?thesis by (rule conjI)
qed

section \<open>Sanitizing a sanitized title\<close>

lemma plain_space: "plain (CHR '' '')"
  by (simp add: plain_def is_bracket_def)

lemma strip_extension_plain:
  assumes "\<forall>c \<in> set s. plain c"
  shows "strip_extension s = s"
  using assms by (induction s) (simp_all add: plain_def)

lemma replace_dots_plain:
  assumes "\<forall>c \<in> set s. plain c"
  shows "replace_dots s = s"
  using assms by (induction s) (simp_all add: replace_dots_def plain_def)

lemma replace_brackets_plain:
  assumes "\<forall>c \<in> set s. plain c"
  shows "replace_brackets s = s"
  using assms by (induction s) (simp_all add: replace_brackets_def plain_def)

lemma space_not_bracket: "\<not> is_bracket (CHR '' '')"
  by (simp add: is_bracket_def)

lemma plain_replaced:
  "plain (if is_bracket (if c = CHR ''.'' then CHR '' '' else c) then CHR '' ''
          else (if c = CHR ''.'' then CHR '' '' else c))"
proof (cases "c = CHR ''.''")
  case True
  then show ?thesis by (simp add: space_not_bracket plain_space)
next
  case False
  show ?thesis
  proof (cases "is_bracket c")
    case True
    with False show ?thesis by (simp add: plain_space)
  next
    case b: False
    with False show ?thesis by (simp add: plain_def)
  qed
qed

lemma plain_after_replacements: "\<forall>c \<in> set (replace_brackets (replace_dots s)). plain c"
proof
  fix x
  assume "x \<in> set (replace_brackets (replace_dots s))"
  then have "x \<in> (\<lambda>c. if is_bracket (if c = CHR ''.'' then CHR '' '' else c) then CHR '' ''
                      else (if c = CHR ''.'' then CHR '' '' else c)) ` set s"
    unfolding replace_brackets_def replace_dots_def by (simp only: set_map image_image)
  then obtain c where "x = (if is_bracket (if c = CHR ''.'' then CHR '' '' else c) then CHR '' ''
                            else (if c = CHR ''.'' then CHR '' '' else c))" ..
  then show "plain x" by (simp only: plain_replaced)
qed

lemma set_trim: "set (trim s) \<subseteq> set s"
proof -
  have "set (trim s) = set (dropWhile is_space (rev (dropWhile is_space s)))"
    by (simp add: trim_def)
  also have "\<dots> \<subseteq> set (rev (dropWhile is_space s))"
    by (auto dest: set_dropWhileD)
  also have "\<dots> \<subseteq> set s"
    by (auto dest: set_dropWhileD)
  finally show ?thesis .
qed

lemma set_collapse_spaces: "set (collapse_spaces p s) \<subseteq> insert (CHR '' '') (set s)"
  by (induction s arbitrary: p) auto

lemma split_digits4_first_prefix: "\<exists>r. s = split_digits4_first s @ r"
proof (induction s)
  case Nil
  then show ?case by simp
next
  case (Cons c cs)
  then obtain r where "cs = split_digits4_first cs @ r" ..
  then have "c # cs = (c # split_digits4_first cs) @ r" by simp
  then show ?case by (cases "digits4_at (c # cs)") auto
qed

lemma set_split_digits4_first: "set (split_digits4_first s) \<subseteq> set s"
proof -
  obtain r where "s = split_digits4_first s @ r"
    using split_digits4_first_prefix [of s] ..
  then have "set s = set (split_digits4_first s) \<union> set r"
    by (metis set_append)
  then show ?thesis by blast
qed

lemma trim_decomp: "\<exists>a b. s = a @ trim s @ b"
proof -
  let ?u = "dropWhile is_space s"
  have "rev (takeWhile is_space (rev ?u) @ dropWhile is_space (rev ?u)) = rev (rev ?u)"
    by (simp only: takeWhile_dropWhile_id)
  then have "rev (dropWhile is_space (rev ?u)) @ rev (takeWhile is_space (rev ?u)) = ?u"
    by (simp only: rev_append rev_rev_ident)
  then have u: "?u = trim s @ rev (takeWhile is_space (rev ?u))"
    unfolding trim_def by (rule sym)
  have "s = takeWhile is_space s @ ?u" by simp
  with u have "s = takeWhile is_space s @ trim s @ rev (takeWhile is_space (rev ?u))"
    by simp
  then show ?thesis by blast
qed

lemma trim_ends:
  assumes "trim s \<noteq> []"
  shows "\<not> is_space (hd (trim s)) \<and> \<not> is_space (last (trim s))"
proof -
  let ?u = "dropWhile is_space s"
  let ?v = "dropWhile is_space (rev ?u)"
  from assms have v: "?v \<noteq> []" by (simp add: trim_def)
  have u: "?u \<noteq> []"
  proof
    assume "?u = []"
    then have "?v = []" by (simp only: rev.simps dropWhile.simps)
    with v show False ..
  qed
  have "last (trim s) = hd ?v"
    using v by (simp add: trim_def last_rev)
  moreover have "\<not> is_space (hd ?v)"
    using v by (rule hd_dropWhile)
  moreover have "hd (trim s) = last ?v"
    using v by (simp add: trim_def hd_rev)
  moreover have "last ?v = last (rev ?u)"
  proof -
    have a: "last (takeWhile is_space (rev ?u) @ ?v) = last (rev ?u)"
      by (simp only: takeWhile_dropWhile_id)
    have b: "last (takeWhile is_space (rev ?u) @ ?v) = last ?v"
      using v by (rule last_appendR)
    from b [symmetric] a show ?thesis by (rule trans)
  qed
  moreover have "last (rev ?u) = hd ?u"
    using u by (simp add: last_rev)
  moreover have "\<not> is_space (hd ?u)"
    using u by (rule hd_dropWhile)
  ultimately show ?thesis by simp
qed

lemma trim_id:
  assumes "s \<noteq> []" and "\<not> is_space (hd s)" and "\<not> is_space (last s)"
  shows "trim s = s"
proof -
  from assms have a: "dropWhile is_space s = s"
    by (cases s) simp_all
  from assms have "rev s \<noteq> []" "\<not> is_space (hd (rev s))"
    by (simp_all add: hd_rev)
  then have "dropWhile is_space (rev s) = rev s"
    by (cases "rev s") simp_all
  with a show ?thesis by (simp add: trim_def)
qed

lemma trim_trim: "trim (trim s) = trim s"
proof (cases "trim s = []")
  case True
  have "trim [] = []" by (simp add: trim_def)
  with True show ?thesis by simp
next
  case False
  with trim_ends [OF False] show ?thesis by (intro trim_id) simp_all
qed

lemma single_spaced_weaken: "single_spaced p s \<Longrightarrow> single_spaced False s"
  by (cases s) (auto split: if_splits)

lemma single_spaced_prefix: "single_spaced p (a @ b) \<Longrightarrow> single_spaced p a"
  by (induction a arbitrary: p) (auto split: if_splits)

lemma single_spaced_suffix: "single_spaced p (a @ b) \<Longrightarrow> single_spaced False b"
proof (induction a arbitrary: p)
  case Nil
  then show ?case by (simp add: single_spaced_weaken)
next
  case (Cons c a)
  then show ?case by (auto split: if_splits)
qed

lemma single_spaced_collapse_spaces: "single_spaced p (collapse_spaces p s)"
  by (induction s arbitrary: p) (simp_all add: is_space_def)

lemma collapse_spaces_id: "single_spaced p s \<Longrightarrow> collapse_spaces p s = s"
  by (induction s arbitrary: p) (auto split: if_splits)

lemma single_spaced_trim:
  assumes "single_spaced p s"
  shows "single_spaced False (trim s)"
proof -
  obtain a b where "s = a @ trim s @ b" using trim_decomp [of s] by blast
  with assms have "single_spaced p (a @ trim s @ b)" by simp
  then have "single_spaced False (trim s @ b)" by (rule single_spaced_suffix)
  then show ?thesis by (rule single_spaced_prefix)
qed

lemma digits4_at_append: "digits4_at a \<Longrightarrow> digits4_at (a @ b)"
  by (cases a rule: digits4_at.cases) simp_all

lemma no_digits4_prefix: "no_digits4 (a @ b) \<Longrightarrow> no_digits4 a"
proof (induction a)
  case Nil
  then show ?case by simp
next
  case (Cons c a)
  from Cons.prems have "\<not> digits4_at ((c # a) @ b)" "no_digits4 (a @ b)" by simp_all
  with Cons.IH digits4_at_append [of "c # a" b] show ?case by auto
qed

lemma no_digits4_suffix: "no_digits4 (a @ b) \<Longrightarrow> no_digits4 b"
  by (induction a) simp_all

lemma no_digits4_split_digits4_first: "no_digits4 (split_digits4_first s)"
proof (induction s)
  case Nil
  then show ?case by simp
next
  case (Cons c cs)
  show ?case
  proof (cases "digits4_at (c # cs)")
    case True
    then show ?thesis by simp
  next
    case False
    obtain r where "cs = split_digits4_first cs @ r"
      using split_digits4_first_prefix [of cs] ..
    then have "c # cs = (c # split_digits4_first cs) @ r" by simp
    with False digits4_at_append [of "c # split_digits4_first cs" r]
    have "\<not> digits4_at (c # split_digits4_first cs)" by auto
    with False Cons.IH show ?thesis by simp
  qed
qed

lemma split_digits4_first_id: "no_digits4 s \<Longrightarrow> split_digits4_first s = s"
  by (induction s) simp_all

lemma no_digits4_trim:
  assumes "no_digits4 s"
  shows "no_digits4 (trim s)"
proof -
  obtain a b where "s = a @ trim s @ b" using trim_decomp [of s] by blast
  with assms have "no_digits4 (a @ trim s @ b)" by simp
  then have "no_digits4 (trim s @ b)" by (rule no_digits4_suffix)
  then show ?thesis by (rule no_digits4_prefix)
qed

text \<open>The title of a result is left as it is by every step of the sanitizer.\<close>

lemma sanitized_title_shape:
  fixes title :: string
  defines "st \<equiv> trim (split_digits4_first (clean_title title))"
  shows "(\<forall>c \<in> set st. plain c) \<and> single_spaced False st \<and> no_digits4 st \<and> trim st = st"
proof (intro conjI)
  have "set st \<subseteq> set (clean_title title)"
    unfolding st_def using set_trim set_split_digits4_first by blast
  also have "\<dots> \<subseteq> insert (CHR '' '') (set (trim (replace_brackets (replace_dots (strip_extension title)))))"
    unfolding clean_title_def by (rule set_collapse_spaces)
  also have "\<dots> \<subseteq> insert (CHR '' '') (set (replace_brackets (replace_dots (strip_extension title))))"
    using set_trim by blast
  finally show "\<forall>c \<in> set st. plain c"
    using plain_after_replacements [of "strip_extension title"] plain_space by blast
next
  have "single_spaced False (clean_title title)"
    unfolding clean_title_def by (rule single_spaced_collapse_spaces)
  moreover obtain r where "clean_title title = split_digits4_first (clean_title title) @ r"
    using split_digits4_first_prefix [of "clean_title title"] ..
  ultimately have "single_spaced False (split_digits4_first (clean_title title))"
    using single_spaced_prefix by metis
  then show "single_spaced False st"
    unfolding st_def by (rule single_spaced_trim)
next
  show "no_digits4 st"
    unfolding st_def by (rule no_digits4_trim [OF no_digits4_split_digits4_first])
next
  show "trim st = st"
    unfolding st_def by (rule trim_trim)
qed

lemma sanitized_title_fixed:
  assumes "\<forall>c \<in> set st. plain c" and "single_spaced False st" and "no_digits4 st"
    and "trim st = st"
  shows "trim (split_digits4_first (clean_title st)) = st"
proof -
  have "clean_title st = collapse_spaces False (trim st)"
    unfolding clean_title_def
    by (simp add: strip_extension_plain [OF assms(1)] replace_dots_plain [OF assms(1)]
                  replace_brackets_plain [OF assms(1)])
  also have "\<dots> = st"
    unfolding assms(4) by (rule collapse_spaces_id [OF assms(2)])
  finally have "clean_title st = st" .
  then show ?thesis
    by (simp add: split_digits4_first_id [OF assms(3)] assms(4))
qed

text \<open>
  C8 (as the code has it). When the title of a result is not empty, sanitizing that
  title again returns a result with the same title, so not a shorter one; this needs no
  condition on what the title still contains. When the title of a result is empty,
  sanitizing it again returns \<open>null\<close>.
\<close>

theorem resanitized_title_is_same:
  assumes "sanitizeMovieTitle (Some title) = Some r"
  shows "(sanitized_title r \<noteq> [] \<longrightarrow>
           (\<exists>r'. sanitizeMovieTitle (Some (sanitized_title r)) = Some r'
                 \<and> sanitized_title r' = sanitized_title r
                 \<and> length (sanitized_title r) \<le> length (sanitized_title r')))
         \<and> (sanitized_title r = [] \<longrightarrow> sanitizeMovieTitle (Some (sanitized_title r)) = None)"
proof (intro conjI impI)
  let ?st = "trim (split_digits4_first (clean_title title))"
  from assms have ne: "title \<noteq> []"
    using sanitizeMovieTitle_None_iff [of "Some title"] by (cases title) simp_all
  from assms have st: "sanitized_title r = ?st"
    unfolding sanitizeMovieTitle_Some [OF ne] by (cases r) simp
  assume "sanitized_title r \<noteq> []"
  then have ne': "?st \<noteq> []" unfolding st .
  from sanitized_title_shape [of title]
  have fixed: "trim (split_digits4_first (clean_title ?st)) = ?st"
    by (intro sanitized_title_fixed) simp_all
  let ?r' = "\<lparr> sanitized_title = trim (split_digits4_first (clean_title ?st)),
               year = (case first_match year_at False ?st of Some y \<Rightarrow> y | None \<Rightarrow> []),
               quality = (case first_match quality_at False ?st of Some q \<Rightarrow> q | None \<Rightarrow> []),
               keywords_str = join_comma (matched_keywords ?st) \<rparr>"
  have "sanitizeMovieTitle (Some ?st) = Some ?r'"
    by (rule sanitizeMovieTitle_Some [OF ne'])
  moreover have "sanitized_title ?r' = ?st" using fixed by simp
  ultimately have "sanitizeMovieTitle (Some ?st) = Some ?r'
                 \<and> sanitized_title ?r' = ?st
                 \<and> length ?st \<le> length (sanitized_title ?r')"
    by simp
  then show "\<exists>r'. sanitizeMovieTitle (Some (sanitized_title r)) = Some r'
                 \<and> sanitized_title r' = sanitized_title r
                 \<and> length (sanitized_title r) \<le> length (sanitized_title r')"
    unfolding st by (rule exI [of _ ?r'])
next
  assume "sanitized_title r = []"
  then show "sanitizeMovieTitle (Some (sanitized_title r)) = None"
    by (simp add: sanitizeMovieTitle_None_iff)
qed

theorem resanitized_title_is_same_witness:
  "sanitizeMovieTitle (Some ''Blade Runner'')
     = Some \<lparr> sanitized_title = ''Blade Runner'', year = [], quality = [], keywords_str = [] \<rparr>"
proof -
  let ?t = "''Blade.Runner.1982.720p.mkv''"
  let ?r = "\<lparr> sanitized_title = ''Blade Runner'', year = ''1982'', quality = ''720p'',
              keywords_str = [] \<rparr>"
  have r: "sanitizeMovieTitle (Some ?t) = Some ?r" by code_simp
  have n: "sanitized_title ?r \<noteq> []" by simp
  from resanitized_title_is_same [OF r]
  have "sanitized_title ?r \<noteq> [] \<longrightarrow>
           (\<exists>r'. sanitizeMovieTitle (Some (sanitized_title ?r)) = Some r'
                 \<and> sanitized_title r' = sanitized_title ?r
                 \<and> length (sanitized_title ?r) \<le> length (sanitized_title r'))"
    by (rule conjunct1)
  from mp [OF this n] obtain r' where a: "sanitizeMovieTitle (Some (sanitized_title ?r)) = Some r'"
    and b: "sanitized_title r' = sanitized_title ?r"
    by (elim exE conjE)
  have y: "first_match year_at False ''Blade Runner'' = None" by code_simp
  have q: "first_match quality_at False ''Blade Runner'' = None" by code_simp
  have k: "matched_keywords ''Blade Runner'' = []" by code_simp
  have ne: "''Blade Runner'' \<noteq> []" by simp
  from a have a': "sanitizeMovieTitle (Some ''Blade Runner'') = Some r'" by simp
  from a' have "year r' = [] \<and> quality r' = [] \<and> keywords_str r' = []"
    unfolding sanitizeMovieTitle_Some [OF ne] y q k by (cases r') simp
  with b have "r' = \<lparr> sanitized_title = ''Blade Runner'', year = [], quality = [], keywords_str = [] \<rparr>"
    by (cases r') simp
  with a' show ?thesis by simp
qed

text \<open>
  C8 (as the specification states it). The title of \<open>2001.A.Space.Odyssey.1968.mkv\<close>
  is cut at its first four digits and is empty; it holds no year and no quality to
  strip, and sanitizing it again gives no title at all: the sanitizer returns \<open>null\<close>.
\<close>

theorem resanitize_empty_title_counterexample:
  "sanitizeMovieTitle (Some ''2001.A.Space.Odyssey.1968.mkv'')
     = Some \<lparr> sanitized_title = [], year = ''2001'', quality = [], keywords_str = [] \<rparr>
   \<and> sanitizeMovieTitle
       (Some (sanitized_title
                \<lparr> sanitized_title = [], year = ''2001'', quality = [], keywords_str = [] \<rparr>))
     = None"
  by code_simp

end
